theory Spec2Isabelle
  imports Main
begin

section \<open>Failures\<close>

text \<open>
  The C sources report failure in four ways: a function returns \<open>nullptr\<close> (or \<open>-1\<close>)
  with a Python exception set, it calls \<open>Py_FatalError\<close>, it trips an \<open>assert\<close> of a
  debug build, or it dereferences a null pointer or casts without a check. Each is a
  value of \<open>failure\<close>; a function that can fail returns \<open>failure + 'a\<close>.
\<close>

datatype exc = ImportError | NameError | ValueError | TypeError | AttributeError
  | SystemError | UnicodeDecodeError

datatype failure =
    Raised exc
  | Fatal string
  | AssertFail
  | Crash

section \<open>Reflectable entities (signature.cpp, signature\_helper.cpp)\<close>

text \<open>
  The objects that \<open>GetClassOrModOf\<close> and \<open>GetTypeKey\<close> inspect are immutable for
  these functions, so they are values. The constructor is the concrete kind
  (\<open>Py_TYPE\<close>) that the source tests; attributes are association lists looked up by
  name. A builtin function carries what \<open>PyCFunction_GET_SELF\<close> yields, a static method
  its \<open>__func__\<close>, a descriptor the attributes of its \<open>d_type\<close> (read as
  \<open>__objclass__\<close>), any other object the attributes of its type.
\<close>

datatype pyob =
    PyNone
  | PyStr string
  | PyTuple "pyob list"
  | PyTypeOb "(string \<times> pyob) list"
  | PyModuleOb "(string \<times> pyob) list"
  | PyCFunctionOb "pyob option" "(string \<times> pyob) list"
  | PyStaticMethodOb pyob
  | PyMethodDescrOb "(string \<times> pyob) list" string
  | PyWrapperDescrOb "(string \<times> pyob) list" string
  | PyOtherOb "(string \<times> pyob) list" "(string \<times> pyob) list"

definition PyType_Check :: "pyob \<Rightarrow> bool" where
  "PyType_Check ob = (case ob of PyTypeOb _ \<Rightarrow> True | _ \<Rightarrow> False)"

definition PyModule_Check :: "pyob \<Rightarrow> bool" where
  "PyModule_Check ob = (case ob of PyModuleOb _ \<Rightarrow> True | _ \<Rightarrow> False)"

definition builtin_type :: "string \<Rightarrow> pyob" where
  "builtin_type nm = PyTypeOb [(''__module__'', PyStr ''builtins''),
     (''__qualname__'', PyStr nm), (''__name__'', PyStr nm)]"

definition Py_TYPE :: "pyob \<Rightarrow> pyob" where
  "Py_TYPE ob = (case ob of
      PyNone \<Rightarrow> builtin_type ''NoneType''
    | PyStr _ \<Rightarrow> builtin_type ''str''
    | PyTuple _ \<Rightarrow> builtin_type ''tuple''
    | PyTypeOb _ \<Rightarrow> builtin_type ''type''
    | PyModuleOb _ \<Rightarrow> builtin_type ''module''
    | PyCFunctionOb _ _ \<Rightarrow> builtin_type ''builtin_function_or_method''
    | PyStaticMethodOb _ \<Rightarrow> builtin_type ''staticmethod''
    | PyMethodDescrOb _ _ \<Rightarrow> builtin_type ''method_descriptor''
    | PyWrapperDescrOb _ _ \<Rightarrow> builtin_type ''wrapper_descriptor''
    | PyOtherOb tattrs _ \<Rightarrow> PyTypeOb tattrs)"

definition PyObject_GetAttr :: "pyob \<Rightarrow> string \<Rightarrow> pyob option" where
  "PyObject_GetAttr ob nm = (case ob of
      PyTypeOb attrs \<Rightarrow> map_of attrs nm
    | PyModuleOb attrs \<Rightarrow> map_of attrs nm
    | PyCFunctionOb _ attrs \<Rightarrow> map_of attrs nm
    | PyStaticMethodOb f \<Rightarrow> (if nm = ''__func__'' then Some f else None)
    | PyMethodDescrOb tattrs n \<Rightarrow>
        (if nm = ''__objclass__'' then Some (PyTypeOb tattrs)
         else if nm = ''__name__'' then Some (PyStr n) else None)
    | PyWrapperDescrOb tattrs n \<Rightarrow>
        (if nm = ''__objclass__'' then Some (PyTypeOb tattrs)
         else if nm = ''__name__'' then Some (PyStr n) else None)
    | PyOtherOb _ attrs \<Rightarrow> map_of attrs nm
    | _ \<Rightarrow> None)"

text \<open>
  \<open>_get_class_of_cf\<close>: the self of the function, else the entry of \<open>map_dict\<close> for the
  function, else the entry for \<open>(function, "overload")\<close>, else \<open>None\<close>; a type or module
  is returned as it is, anything else is replaced by its type. \<open>PyCFunction_GET_SELF\<close>
  is an unchecked cast, so an argument that is no builtin function is \<open>Crash\<close>.
\<close>

definition get_class_of_cf :: "(pyob \<rightharpoonup> pyob) \<Rightarrow> pyob \<Rightarrow> failure + pyob" where
  "get_class_of_cf map_dict ob_cf = (case ob_cf of
      PyCFunctionOb self _ \<Rightarrow>
        (let selftype = (case self of
              Some s \<Rightarrow> s
            | None \<Rightarrow> (case map_dict ob_cf of
                  Some t \<Rightarrow> t
                | None \<Rightarrow> (case map_dict (PyTuple [ob_cf, PyStr ''overload'']) of
                      Some t \<Rightarrow> t
                    | None \<Rightarrow> PyNone)))
         in Inr (if PyType_Check selftype \<or> PyModule_Check selftype then selftype
                 else Py_TYPE selftype))
    | _ \<Rightarrow> Inl Crash)"

definition get_class_of_sm :: "(pyob \<rightharpoonup> pyob) \<Rightarrow> pyob \<Rightarrow> failure + pyob" where
  "get_class_of_sm map_dict ob_sm = (case PyObject_GetAttr ob_sm ''__func__'' of
      None \<Rightarrow> Inl Crash
    | Some func \<Rightarrow> get_class_of_cf map_dict func)"

definition get_class_of_descr :: "pyob \<Rightarrow> failure + pyob" where
  "get_class_of_descr ob = (case PyObject_GetAttr ob ''__objclass__'' of
      None \<Rightarrow> Inl (Raised AttributeError)
    | Some c \<Rightarrow> Inr c)"

text \<open>
  \<open>GetClassOrModOf\<close> (the build without \<open>PYPY_VERSION\<close>): a flat chain of tests on the
  kind of the object, ending in \<open>Py_FatalError\<close>.
\<close>

definition GetClassOrModOf :: "(pyob \<rightharpoonup> pyob) \<Rightarrow> pyob \<Rightarrow> failure + pyob" where
  "GetClassOrModOf map_dict ob = (case ob of
      PyTypeOb _ \<Rightarrow> Inr ob
    | PyCFunctionOb _ _ \<Rightarrow> get_class_of_cf map_dict ob
    | PyStaticMethodOb _ \<Rightarrow> get_class_of_sm map_dict ob
    | PyMethodDescrOb _ _ \<Rightarrow> get_class_of_descr ob
    | PyWrapperDescrOb _ _ \<Rightarrow> get_class_of_descr ob
    | _ \<Rightarrow> Inl (Fatal ''unexpected type in GetClassOrModOf''))"

text \<open>
  \<open>GetTypeKey\<close>. The leading \<open>assert\<close> only exists in a debug build (\<open>ndebug = False\<close>).
  \<open>Py_BuildValue("O", x)\<close> is \<open>x\<close> itself, and \<open>nullptr\<close> when \<open>x\<close> is \<open>nullptr\<close> (the
  failed lookup of \<open>__name__\<close> has left its exception set).
\<close>

definition GetTypeKey :: "bool \<Rightarrow> pyob \<Rightarrow> failure + pyob" where
  "GetTypeKey ndebug ob =
    (if \<not> ndebug \<and> \<not> (PyType_Check ob \<or> PyModule_Check ob) then Inl AssertFail
     else case PyObject_GetAttr ob ''__module__'' of
        None \<Rightarrow> (case PyObject_GetAttr ob ''__name__'' of
            None \<Rightarrow> Inl (Raised AttributeError)
          | Some module_name \<Rightarrow> Inr module_name)
      | Some module_name \<Rightarrow> (case PyObject_GetAttr ob ''__qualname__'' of
            None \<Rightarrow> Inl (Fatal ''Signature: missing class name in GetTypeKey'')
          | Some class_name \<Rightarrow> Inr (PyTuple [module_name, class_name])))"

text \<open>
  The kinds for which \<open>GetClassOrModOf\<close> has a branch: a type, a builtin function or
  method, a static method, a method descriptor, a wrapper descriptor.
\<close>

definition PyCFunction_Check :: "pyob \<Rightarrow> bool" where
  "PyCFunction_Check ob = (case ob of PyCFunctionOb _ _ \<Rightarrow> True | _ \<Rightarrow> False)"

definition supported_kind :: "pyob \<Rightarrow> bool" where
  "supported_kind ob = (case ob of
      PyTypeOb _ \<Rightarrow> True
    | PyCFunctionOb _ _ \<Rightarrow> True
    | PyStaticMethodOb _ \<Rightarrow> True
    | PyMethodDescrOb _ _ \<Rightarrow> True
    | PyWrapperDescrOb _ _ \<Rightarrow> True
    | _ \<Rightarrow> False)"


section \<open>Dictionaries and lists as objects of a store\<close>

text \<open>
  A PropsDict, the records in it and the lists of overload records are mutable Python
  objects that the code copies and updates in place, so they live in a store: a list of
  objects addressed by position. An allocation appends to the store; nothing is ever
  freed (reference counts are not modelled). A dictionary keeps its entries in
  insertion order, as \<open>PyDict_Next\<close> visits them; its keys here are strings. A list
  made by \<open>PyList_New(len)\<close> has empty slots until \<open>PyList_SetItem\<close> fills them.
  An operation of the C API that fails on the kind of its argument returns \<open>None\<close>;
  failures to allocate are left out.
\<close>

type_synonym addr = nat

datatype hobj =
    HStr string
  | HDict "(string \<times> addr) list"
  | HList "addr option list"
  | HOther

type_synonym heap = "hobj list"

definition heap_get :: "heap \<Rightarrow> addr \<Rightarrow> hobj option" where
  "heap_get h a = (if a < length h then Some (h ! a) else None)"

definition heap_alloc :: "heap \<Rightarrow> hobj \<Rightarrow> addr \<times> heap" where
  "heap_alloc h ob = (length h, h @ [ob])"

text \<open>Storing under a key: an existing key keeps its position, a new key goes last.\<close>

fun dict_set :: "('k \<times> 'v) list \<Rightarrow> 'k \<Rightarrow> 'v \<Rightarrow> ('k \<times> 'v) list" where
  "dict_set [] k v = [(k, v)]"
| "dict_set ((k', v') # kvs) k v =
     (if k' = k then (k, v) # kvs else (k', v') # dict_set kvs k v)"

definition PyDict_New :: "heap \<Rightarrow> addr \<times> heap" where
  "PyDict_New h = heap_alloc h (HDict [])"

text \<open>\<open>PyDict_Copy\<close> is a shallow copy; on anything but a dictionary it returns \<open>NULL\<close>.\<close>

definition PyDict_Copy :: "heap \<Rightarrow> addr \<Rightarrow> (addr \<times> heap) option" where
  "PyDict_Copy h a = (case heap_get h a of
      Some (HDict kvs) \<Rightarrow> Some (heap_alloc h (HDict kvs))
    | _ \<Rightarrow> None)"

definition PyDict_GetItem :: "heap \<Rightarrow> addr \<Rightarrow> string \<Rightarrow> addr option" where
  "PyDict_GetItem h a k = (case heap_get h a of
      Some (HDict kvs) \<Rightarrow> map_of kvs k
    | _ \<Rightarrow> None)"

definition PyDict_SetItem :: "heap \<Rightarrow> addr \<Rightarrow> string \<Rightarrow> addr \<Rightarrow> heap option" where
  "PyDict_SetItem h a k v = (case heap_get h a of
      Some (HDict kvs) \<Rightarrow> Some (h[a := HDict (dict_set kvs k v)])
    | _ \<Rightarrow> None)"

definition PyList_New :: "heap \<Rightarrow> nat \<Rightarrow> addr \<times> heap" where
  "PyList_New h len = heap_alloc h (HList (replicate len None))"

definition PyList_SetItem :: "heap \<Rightarrow> addr \<Rightarrow> nat \<Rightarrow> addr \<Rightarrow> heap option" where
  "PyList_SetItem h l idx v = (case heap_get h l of
      Some (HList xs) \<Rightarrow> (if idx < length xs then Some (h[l := HList (xs[idx := Some v])]) else None)
    | _ \<Rightarrow> None)"

text \<open>
  \<open>PyDict_Merge(a, b, 0)\<close>: every key of \<open>b\<close> that \<open>a\<close> does not have is appended to
  \<open>a\<close>; a key that \<open>a\<close> has keeps its value. It fails unless both are dictionaries.
\<close>

fun merge_keep :: "('k \<times> 'v) list \<Rightarrow> ('k \<times> 'v) list \<Rightarrow> ('k \<times> 'v) list" where
  "merge_keep akvs [] = akvs"
| "merge_keep akvs ((k, v) # bkvs) =
     merge_keep (if map_of akvs k = None then akvs @ [(k, v)] else akvs) bkvs"

definition PyDict_Merge_keep :: "heap \<Rightarrow> addr \<Rightarrow> addr \<Rightarrow> heap option" where
  "PyDict_Merge_keep h a b = (case heap_get h a of
      Some (HDict akvs) \<Rightarrow> (case heap_get h b of
          Some (HDict bkvs) \<Rightarrow> Some (h[a := HDict (merge_keep akvs bkvs)])
        | _ \<Rightarrow> None)
    | _ \<Rightarrow> None)"

section \<open>Name variants of a PropsDict (signature\_helper.cpp)\<close>

text \<open>
  The loop of \<open>_build_new_entry\<close> over the overload list \<open>multi\<close>: each record is
  copied, the copy is renamed and stored in the new list. The loop writes only to
  objects it has allocated, so it runs over the items read when it starts. The result
  of \<open>PyDict_Copy\<close> is not checked: on an item that is no dictionary the next call,
  \<open>PyDict_SetItem(dup, ...)\<close>, reads through a null pointer.
\<close>

fun copy_multi :: "addr \<Rightarrow> addr \<Rightarrow> nat \<Rightarrow> addr option list \<Rightarrow> heap \<Rightarrow> failure + heap" where
  "copy_multi new_name list idx [] h = Inr h"
| "copy_multi new_name list idx (multi_entry # rest) h =
     (case (case multi_entry of None \<Rightarrow> None | Some e \<Rightarrow> PyDict_Copy h e) of
        None \<Rightarrow> Inl Crash
      | Some (dup, h1) \<Rightarrow>
         (case PyDict_SetItem h1 dup ''name'' new_name of
            None \<Rightarrow> Inl (Raised SystemError)
          | Some h2 \<Rightarrow>
             (case PyList_SetItem h2 list idx dup of
                None \<Rightarrow> Inl (Raised SystemError)
              | Some h3 \<Rightarrow> copy_multi new_name list (Suc idx) rest h3)))"

text \<open>
  \<open>_build_new_entry\<close>: a copy of the record; when the record has a \<open>multi\<close> entry that
  is a list, the copy gets a new list of renamed copies, otherwise the copy itself is
  renamed. A \<open>value\<close> that is no dictionary leaves \<open>new_value\<close> null and is
  dereferenced by \<open>PyDict_SetItem\<close>.
\<close>

definition build_new_entry :: "addr \<Rightarrow> addr \<Rightarrow> heap \<Rightarrow> failure + (addr \<times> heap)" where
  "build_new_entry new_name value h = (case PyDict_Copy h value of
      None \<Rightarrow> Inl Crash
    | Some (new_value, h1) \<Rightarrow>
       (let rename = (case PyDict_SetItem h1 new_value ''name'' new_name of
                None \<Rightarrow> Inl (Raised SystemError)
              | Some h2 \<Rightarrow> Inr (new_value, h2))
        in case PyDict_GetItem h1 value ''multi'' of
            None \<Rightarrow> rename
          | Some multi \<Rightarrow> (case heap_get h1 multi of
                Some (HList items) \<Rightarrow>
                 (let (list, h2) = PyList_New h1 (length items)
                  in case copy_multi new_name list 0 items h2 of
                       Inl e \<Rightarrow> Inl e
                     | Inr h3 \<Rightarrow> (case PyDict_SetItem h3 new_value ''multi'' list of
                          None \<Rightarrow> Inl (Raised SystemError)
                        | Some h4 \<Rightarrow> Inr (new_value, h4)))
              | _ \<Rightarrow> rename)))"

text \<open>
  The loop of \<open>insert_snake_case_variants\<close> over the entries of the dictionary. The
  name transform \<open>String::getSnakeCaseName\<close> is not part of these sources and is the
  parameter \<open>snake\<close>. The result of \<open>_build_new_entry\<close> is not checked either: a null
  \<open>new_value\<close> is passed on to \<open>PyDict_SetItem\<close>.
\<close>

fun snake_loop :: "(string \<Rightarrow> string) \<Rightarrow> addr \<Rightarrow> (string \<times> addr) list \<Rightarrow> heap \<Rightarrow> failure + heap" where
  "snake_loop snake snake_dict [] h = Inr h"
| "snake_loop snake snake_dict ((key, value) # rest) h =
     (let (name, h1) = heap_alloc h (HStr (snake key))
      in case build_new_entry name value h1 of
           Inl e \<Rightarrow> Inl Crash
         | Inr (new_value, h2) \<Rightarrow>
            (case PyDict_SetItem h2 snake_dict (snake key) new_value of
               None \<Rightarrow> Inl (Raised SystemError)
             | Some h3 \<Rightarrow> snake_loop snake snake_dict rest h3))"

definition dict_items :: "heap \<Rightarrow> addr \<Rightarrow> (string \<times> addr) list" where
  "dict_items h d = (case heap_get h d of Some (HDict kvs) \<Rightarrow> kvs | _ \<Rightarrow> [])"

definition insert_snake_case_variants :: "(string \<Rightarrow> string) \<Rightarrow> addr \<Rightarrow> heap \<Rightarrow> failure + heap" where
  "insert_snake_case_variants snake dict h =
     (let (snake_dict, h1) = PyDict_New h
      in case snake_loop snake snake_dict (dict_items h1 dict) h1 of
           Inl e \<Rightarrow> Inl e
         | Inr h2 \<Rightarrow> (case PyDict_Merge_keep h2 dict snake_dict of
              None \<Rightarrow> Inl (Raised SystemError)
            | Some h3 \<Rightarrow> Inr h3))"

text \<open>
  A record that \<open>_build_new_entry\<close> can copy, below the bound \<open>n\<close> of the store: a
  dictionary whose \<open>multi\<close> entry, when it is a list, holds dictionaries only. A
  well-formed PropsDict is a dictionary of such records.
\<close>

definition is_dict :: "heap \<Rightarrow> addr \<Rightarrow> bool" where
  "is_dict h a = (case heap_get h a of Some (HDict _) \<Rightarrow> True | _ \<Rightarrow> False)"

definition ok_item :: "nat \<Rightarrow> heap \<Rightarrow> addr option \<Rightarrow> bool" where
  "ok_item n h it = (case it of None \<Rightarrow> False | Some e \<Rightarrow> e < n \<and> is_dict h e)"

definition ok_value :: "nat \<Rightarrow> heap \<Rightarrow> addr \<Rightarrow> bool" where
  "ok_value n h v = (v < n \<and> n \<le> length h \<and> (case h ! v of
      HDict kvs \<Rightarrow> (case map_of kvs ''multi'' of
          None \<Rightarrow> True
        | Some m \<Rightarrow> m < n \<and> (case h ! m of
              HList items \<Rightarrow> list_all (ok_item n h) items
            | _ \<Rightarrow> True))
    | _ \<Rightarrow> False))"

definition props_dict :: "heap \<Rightarrow> addr \<Rightarrow> bool" where
  "props_dict h d = (is_dict h d \<and> list_all (\<lambda>(k, v). ok_value (length h) h v) (dict_items h d))"

text \<open>
  The relation between a record and the copy that \<open>_build_new_entry\<close> makes of it,
  from the store \<open>h\<close> before to the store \<open>h'\<close> after: the copy is a new object; for
  a record with a list under \<open>multi\<close> the copy has the entries of the record with
  \<open>multi\<close> set to a new list, which holds a renamed new copy of each record of the old
  list; for any other record the copy has the entries of the record with \<open>name\<close> set
  to the new name.
\<close>

definition renamed_entry :: "heap \<Rightarrow> heap \<Rightarrow> addr \<Rightarrow> addr option \<Rightarrow> addr option \<Rightarrow> bool" where
  "renamed_entry h h' new_name it it' = (case (it, it') of
      (Some e, Some dup) \<Rightarrow> length h \<le> dup \<and> dup < length h' \<and> (case h ! e of
          HDict ekvs \<Rightarrow> h' ! dup = HDict (dict_set ekvs ''name'' new_name)
        | _ \<Rightarrow> False)
    | _ \<Rightarrow> False)"

definition renamed_copy :: "heap \<Rightarrow> heap \<Rightarrow> addr \<Rightarrow> addr \<Rightarrow> addr \<Rightarrow> bool" where
  "renamed_copy h h' new_name v nv = (length h \<le> nv \<and> nv < length h' \<and> (case h ! v of
      HDict kvs \<Rightarrow>
        (let renamed = (h' ! nv = HDict (dict_set kvs ''name'' new_name))
         in case map_of kvs ''multi'' of
              None \<Rightarrow> renamed
            | Some m \<Rightarrow> (case h ! m of
                  HList items \<Rightarrow> (case h' ! nv of
                      HDict kvs' \<Rightarrow> (case map_of kvs' ''multi'' of
                          None \<Rightarrow> False
                        | Some l \<Rightarrow> length h \<le> l \<and> l < length h'
                            \<and> kvs' = dict_set kvs ''multi'' l
                            \<and> (case h' ! l of
                                  HList items' \<Rightarrow> list_all2 (renamed_entry h h' new_name) items items'
                                | _ \<Rightarrow> False))
                    | _ \<Rightarrow> False)
                | _ \<Rightarrow> renamed))
    | _ \<Rightarrow> False))"

text \<open>
  An entry \<open>(k', nv)\<close> that the loop of \<open>insert_snake_case_variants\<close> has built from the
  entries \<open>src\<close>: \<open>nv\<close> is a new record, well-formed in the store after, and the renamed
  copy of the record of an entry \<open>(k, v)\<close> of \<open>src\<close> with \<open>k' = snake k\<close>, the new name
  being a new string object that holds \<open>snake k\<close>.
\<close>

definition variant_entry ::
    "(string \<Rightarrow> string) \<Rightarrow> heap \<Rightarrow> heap \<Rightarrow> (string \<times> addr) list \<Rightarrow> string \<times> addr \<Rightarrow> bool" where
  "variant_entry snake h h' src kv' = (case kv' of (k', nv) \<Rightarrow>
     length h \<le> nv \<and> nv < length h' \<and> ok_value (length h') h' nv
     \<and> (\<exists>(k, v) \<in> set src. k' = snake k
          \<and> (\<exists>nm \<in> {length h..<length h'}. h' ! nm = HStr (snake k)
                \<and> renamed_copy h h' nm v nv)))"

section \<open>The signature store (signature.cpp)\<close>

text \<open>
  What \<open>pyside_globals->arg_dict\<close> holds under a type key is one of three Python
  objects, told apart in the source by \<open>PyDict_Check\<close> and \<open>PyTuple_Check\<close>: the
  address of a null-terminated array of C strings (an int), a pair of the address and
  the size of a compressed byte buffer (a tuple), or the built PropsDict (a dict).
  The array and the buffer are modelled by what they hold.
\<close>

datatype entry =
    StrArray "char list list"
  | ByteBlob "char list"
  | PropsOb addr

text \<open>
  The dependencies that are not part of these sources are parameters: the \<open>zlib\<close>
  module (it may fail to import, lack \<open>decompress\<close>, or \<open>decompress\<close> may raise on
  its argument), the callable \<open>pyside_type_init\<close> behind
  \<open>pyside_type_init_func\<close>, \<open>String::getSnakeCaseName\<close> and the UTF-8 decoding of
  \<open>Py_BuildValue("s", ...)\<close>. The parser is given the type key, the list of strings
  and the first free address; it yields an outcome and the objects it has allocated
  from that address on. The outcome of the callable itself is an object, an exception,
  or \<open>NULL\<close> with no exception set (\<open>InitNull\<close>). Every call into \<open>zlib\<close> and into
  the parser is recorded in \<open>calls\<close>.
\<close>

datatype zlib_env =
    NoZlibModule
  | NoDecompressAttr
  | ZlibDecompressFn "char list \<Rightarrow> char list option"

datatype init_result = InitReturned addr | InitRaised exc | InitNull

datatype call = ZlibDecompress "char list" | TypeInit pyob "string list"

record deps =
  zlib_module :: zlib_env
  pyside_type_init_func :: "pyob \<Rightarrow> string list \<Rightarrow> addr \<Rightarrow> init_result \<times> hobj list"
  getSnakeCaseName :: "string \<Rightarrow> string"
  utf8_decode :: "char list \<Rightarrow> string option"

record globals =
  gheap :: heap
  arg_dict :: "pyob \<rightharpoonup> entry"
  map_dict :: "pyob \<rightharpoonup> pyob"
  empty_dict :: "addr option"
  calls :: "call list"

text \<open>The static \<open>empty_dict\<close>, created on first use.\<close>

definition get_empty_dict :: "globals \<Rightarrow> addr \<times> globals" where
  "get_empty_dict s = (case empty_dict s of
      Some e \<Rightarrow> (e, s)
    | None \<Rightarrow> (let (e, h) = PyDict_New (gheap s)
               in (e, s\<lparr>gheap := h, empty_dict := Some e\<rparr>)))"

text \<open>\<open>PySide_BuildSignatureArgs\<close> and \<open>PySide_BuildSignatureArgsByte\<close>: registration.\<close>

definition PySide_BuildSignatureArgs ::
    "bool \<Rightarrow> pyob \<Rightarrow> char list list \<Rightarrow> globals \<Rightarrow> (failure + unit) \<times> globals" where
  "PySide_BuildSignatureArgs ndebug obtype_mod signatures s =
     (case GetTypeKey ndebug obtype_mod of
        Inl e \<Rightarrow> (Inl e, s)
      | Inr type_key \<Rightarrow>
          (Inr (), s\<lparr>arg_dict := (arg_dict s)(type_key \<mapsto> StrArray signatures),
                     map_dict := (map_dict s)(type_key \<mapsto> obtype_mod)\<rparr>))"

definition PySide_BuildSignatureArgsByte ::
    "bool \<Rightarrow> pyob \<Rightarrow> char list \<Rightarrow> globals \<Rightarrow> (failure + unit) \<times> globals" where
  "PySide_BuildSignatureArgsByte ndebug obtype_mod signatures s =
     (case GetTypeKey ndebug obtype_mod of
        Inl e \<Rightarrow> (Inl e, s)
      | Inr type_key \<Rightarrow>
          (Inr (), s\<lparr>arg_dict := (arg_dict s)(type_key \<mapsto> ByteBlob signatures),
                     map_dict := (map_dict s)(type_key \<mapsto> obtype_mod)\<rparr>))"

text \<open>\<open>byteExpand\<close>: three ways to fail, each with its own exception.\<close>

definition byteExpand :: "deps \<Rightarrow> char list \<Rightarrow> globals \<Rightarrow> (failure + char list) \<times> globals" where
  "byteExpand d packed s = (case zlib_module d of
      NoZlibModule \<Rightarrow> (Inl (Raised ImportError), s)
    | NoDecompressAttr \<Rightarrow> (Inl (Raised NameError), s)
    | ZlibDecompressFn expandFunc \<Rightarrow>
        (let s' = s\<lparr>calls := calls s @ [ZlibDecompress packed]\<rparr>
         in case expandFunc packed of
              None \<Rightarrow> (Inl (Raised ValueError), s')
            | Some unpacked \<Rightarrow> (Inr unpacked, s')))"

text \<open>
  The loop of \<open>bytesToStrings\<close> (lines 415 to 421): \<open>p\<close> runs over the buffer; at a
  newline the start of the current line is stored in \<open>lines[pos]\<close>, the newline is
  overwritten by a zero byte, and the next line starts behind it.
\<close>

function lines_loop ::
    "char list \<Rightarrow> nat \<Rightarrow> nat \<Rightarrow> nat \<Rightarrow> nat option list \<Rightarrow> char list \<times> nat option list \<times> nat" where
  "lines_loop cdata p line pos lines =
     (if p < length cdata then
        (if cdata ! p = CHR 0x0A
         then lines_loop (cdata[p := CHR 0x00]) (Suc p) (Suc p) (Suc pos) (lines[pos := Some line])
         else lines_loop cdata (Suc p) line pos lines)
      else (cdata, lines, pos))"
  by pat_completeness auto
termination
  by (relation "measure (\<lambda>(cdata, p, line, pos, lines). length cdata - p)") auto

declare lines_loop.simps [simp del]

text \<open>
  The array \<open>lines\<close> has \<open>nlines + 1\<close> slots, \<open>nlines\<close> being the number of newlines
  counted by \<open>std::count\<close>; the slot after the last line is set to \<open>nullptr\<close>. The
  result is the buffer and the array of offsets into it.
\<close>

definition split_buffer :: "char list \<Rightarrow> char list \<times> nat option list" where
  "split_buffer data =
     (let nlines = count_list data (CHR 0x0A);
          (cdata, lines, pos) = lines_loop data 0 0 0 (replicate (nlines + 1) None)
      in (cdata, lines[pos := None]))"

text \<open>
  \<open>bytesToStrings\<close>: the decompressor is called only for \<open>size > 0\<close>; for size zero the
  data is the empty byte string.
\<close>

definition bytesToStrings ::
    "deps \<Rightarrow> char list \<Rightarrow> globals \<Rightarrow> (failure + char list \<times> nat option list) \<times> globals" where
  "bytesToStrings d signatures s =
     (case (if length signatures > 0 then byteExpand d signatures s else (Inr [], s)) of
        (Inl e, s1) \<Rightarrow> (Inl e, s1)
      | (Inr data, s1) \<Rightarrow> (Inr (split_buffer data), s1))"

text \<open>
  How a reader such as \<open>_address_ptr_to_stringlist\<close> sees the result: the pointers up
  to the first null pointer, each read as a C string, up to its first zero byte.
\<close>

definition c_str :: "char list \<Rightarrow> nat \<Rightarrow> char list" where
  "c_str buf off = takeWhile (\<lambda>c. c \<noteq> CHR 0x00) (drop off buf)"

definition c_array_view :: "char list \<times> nat option list \<Rightarrow> char list list" where
  "c_array_view r = (case r of (buf, lines) \<Rightarrow>
     map (\<lambda>p. c_str buf (the p)) (takeWhile (\<lambda>p. p \<noteq> None) lines))"

fun address_ptr_to_stringlist ::
    "(char list \<Rightarrow> string option) \<Rightarrow> char list list \<Rightarrow> failure + string list" where
  "address_ptr_to_stringlist dec [] = Inr []"
| "address_ptr_to_stringlist dec (sig_str # sig_strings) = (case dec sig_str of
      None \<Rightarrow> Inl (Raised UnicodeDecodeError)
    | Some pystr \<Rightarrow> (case address_ptr_to_stringlist dec sig_strings of
          Inl e \<Rightarrow> Inl e
        | Inr res_list \<Rightarrow> Inr (pystr # res_list)))"

text \<open>
  \<open>PyObject_CallObject\<close> hands on the object that the callable returns and the
  exception that it raises; a callable that returns \<open>NULL\<close> without setting an
  exception is reported as \<open>SystemError\<close>. So the call never gives \<open>NULL\<close> without an
  error.
\<close>

definition PyObject_CallObject :: "init_result \<Rightarrow> init_result" where
  "PyObject_CallObject outcome = (case outcome of
      InitNull \<Rightarrow> InitRaised SystemError
    | _ \<Rightarrow> outcome)"

text \<open>
  \<open>PySide_BuildSignatureProps\<close>. It is only reached for a key that has an entry; the
  entry of an already built key is a dict, on which \<open>PyLong_AsVoidPtr\<close> raises. The
  source has a branch for a null result of the call without an error (lines 459 to
  462), which returns \<open>empty_dict\<close> before the \<open>PyDict_SetItem\<close> that replaces the
  entry; the branch is kept here as it is written. A type key is a value here, so the
  test for a null key has no counterpart; failures to allocate are left out.
\<close>

definition stored_strings :: "deps \<Rightarrow> entry \<Rightarrow> globals \<Rightarrow> (failure + string list) \<times> globals" where
  "stored_strings d numkey s = (case numkey of
      ByteBlob signatures \<Rightarrow> (case bytesToStrings d signatures s of
          (Inl e, s1) \<Rightarrow> (Inl e, s1)
        | (Inr cstrings, s1) \<Rightarrow>
            (address_ptr_to_stringlist (utf8_decode d) (c_array_view cstrings), s1))
    | StrArray sig_strings \<Rightarrow> (address_ptr_to_stringlist (utf8_decode d) sig_strings, s)
    | PropsOb _ \<Rightarrow> (Inl (Raised TypeError), s))"

definition PySide_BuildSignatureProps :: "deps \<Rightarrow> pyob \<Rightarrow> globals \<Rightarrow> (failure + addr) \<times> globals" where
  "PySide_BuildSignatureProps d type_key s = (case arg_dict s type_key of
      None \<Rightarrow> (Inl Crash, s)
    | Some numkey \<Rightarrow> (case stored_strings d numkey s of
        (Inl e, s1) \<Rightarrow> (Inl e, s1)
      | (Inr strings, s1) \<Rightarrow>
         (let (res, new_objs) = pyside_type_init_func d type_key strings (length (gheap s1));
              s2 = s1\<lparr>gheap := gheap s1 @ new_objs,
                      calls := calls s1 @ [TypeInit type_key strings]\<rparr>
          in case PyObject_CallObject res of
               InitRaised e \<Rightarrow> (Inl (Raised e), s2)
             | InitNull \<Rightarrow> (case get_empty_dict s2 of (e, s3) \<Rightarrow> (Inr e, s3))
             | InitReturned dict \<Rightarrow>
                (case insert_snake_case_variants (getSnakeCaseName d) dict (gheap s2) of
                   Inl e \<Rightarrow> (Inl e, s2)
                 | Inr h \<Rightarrow> (Inr dict,
                     s2\<lparr>gheap := h, arg_dict := (arg_dict s2)(type_key \<mapsto> PropsOb dict)\<rparr>)))))"

text \<open>\<open>TypeKey_to_PropsDict\<close>, the \<open>propsFor\<close> of the specification.\<close>

definition TypeKey_to_PropsDict :: "deps \<Rightarrow> pyob \<Rightarrow> globals \<Rightarrow> (failure + addr) \<times> globals" where
  "TypeKey_to_PropsDict d type_key s = (case arg_dict s type_key of
      None \<Rightarrow> (case get_empty_dict s of (e, s1) \<Rightarrow> (Inr e, s1))
    | Some (PropsOb dict) \<Rightarrow> (Inr dict, s)
    | Some _ \<Rightarrow> PySide_BuildSignatureProps d type_key s)"

text \<open>
  The complete lines of a payload, as a reference for the loop above: the text before
  each newline; what follows the last newline is no line.
\<close>

fun complete_lines :: "char list \<Rightarrow> char list \<Rightarrow> char list list" where
  "complete_lines cur [] = []"
| "complete_lines cur (c # cs) =
     (if c = CHR 0x0A then cur # complete_lines [] cs else complete_lines (cur @ [c]) cs)"

text \<open>The calls into \<open>zlib\<close> that one run of \<open>byteExpand\<close> on \<open>bs\<close> makes.\<close>

definition zlib_calls :: "deps \<Rightarrow> char list \<Rightarrow> call list" where
  "zlib_calls d bs = (case zlib_module d of ZlibDecompressFn _ \<Rightarrow> [ZlibDecompress bs] | _ \<Rightarrow> [])"

text \<open>The store before any registration, and a class to register.\<close>

definition init_globals :: globals where
  "init_globals = \<lparr>gheap = [], arg_dict = Map.empty, map_dict = Map.empty,
     empty_dict = None, calls = []\<rparr>"

definition widget_type :: pyob where
  "widget_type = PyTypeOb [(''__module__'', PyStr ''mod''), (''__qualname__'', PyStr ''Widget''),
     (''__name__'', PyStr ''Widget'')]"

definition widget_key :: pyob where
  "widget_key = PyTuple [PyStr ''mod'', PyStr ''Widget'']"

text \<open>
  The same loop told by recursion over the bytes from \<open>p\<close> on: the offsets it stores
  and the buffer it leaves.
\<close>

fun line_starts :: "nat \<Rightarrow> nat \<Rightarrow> char list \<Rightarrow> nat list" where
  "line_starts p line [] = []"
| "line_starts p line (c # cs) =
     (if c = CHR 0x0A then line # line_starts (Suc p) (Suc p) cs
      else line_starts (Suc p) line cs)"

definition nul_newlines :: "char list \<Rightarrow> char list" where
  "nul_newlines cs = map (\<lambda>c. if c = CHR 0x0A then CHR 0x00 else c) cs"

section \<open>Installing getset descriptors on a type (signature\_helper.cpp)\<close>

text \<open>
  A \<open>PyGetSetDef\<close> with its function pointers and closure as opaque numbers. A table
  of them is the list of entries before the sentinel. Of a type, \<open>add_more_getsets\<close>
  and \<open>_fixup_getset\<close> read \<open>tp_getset\<close>, the names in \<open>tp_members\<close> and the
  dictionary of the type, which they also write. What the dictionary holds is an
  object with an identity: a getset descriptor created by \<open>PyDescr_NewGetSet\<close>, which
  points to the entry of the table it was made for (its index), or any other object.
  The type is taken to be ready, so that \<open>PyType_Ready\<close> changes nothing.
\<close>

record PyGetSetDef =
  gs_name :: string
  gs_get :: "nat option"
  gs_set :: "nat option"
  gs_doc :: "string option"
  gs_closure :: "nat option"

datatype ns_entry = NsDescr nat nat | NsObject nat

record PyTypeObject =
  tp_getset :: "PyGetSetDef list option"
  tp_members :: "string list option"
  tp_dict :: "(string \<times> ns_entry) list"

record patch_state =
  ps_type :: PyTypeObject
  ps_gsp :: "PyGetSetDef list"
  ps_doc_descr :: "ns_entry option"
  ps_next :: nat

text \<open>
  \<open>_fixup_getset\<close>: an entry of \<open>tp_getset\<close> with the name gives its \<open>set\<close>, \<open>doc\<close> and
  \<open>closure\<close> to the new entry and the result is 1; a member with the name gives 1;
  otherwise 0.
\<close>

definition fixup_getset :: "PyTypeObject \<Rightarrow> string \<Rightarrow> PyGetSetDef \<Rightarrow> bool \<times> PyGetSetDef" where
  "fixup_getset type name new_gsp =
     (case (case tp_getset type of
              None \<Rightarrow> None
            | Some gsps \<Rightarrow> find (\<lambda>gsp. gs_name gsp = name) gsps) of
        Some gsp \<Rightarrow> (True, new_gsp\<lparr>gs_set := gs_set gsp, gs_doc := gs_doc gsp,
                                   gs_closure := gs_closure gsp\<rparr>)
      | None \<Rightarrow> (case tp_members type of
            None \<Rightarrow> (False, new_gsp)
          | Some mds \<Rightarrow> (name \<in> set mds, new_gsp)))"

definition install_descr :: "nat \<Rightarrow> patch_state \<Rightarrow> patch_state" where
  "install_descr i st =
     st\<lparr>ps_type := (ps_type st)\<lparr>tp_dict :=
            dict_set (tp_dict (ps_type st)) (gs_name (ps_gsp st ! i)) (NsDescr (ps_next st) i)\<rparr>,
        ps_next := Suc (ps_next st)\<rparr>"

text \<open>
  One round of the loop of \<open>add_more_getsets\<close>, for the entry \<open>i\<close> of the table. With
  a descriptor already in the dictionary: \<open>__doc__\<close> is remembered in \<open>*doc_descr\<close>, any
  other name is \<open>assert(false)\<close> (nothing in a build with \<open>NDEBUG\<close>); then the entry is
  skipped when \<open>_fixup_getset\<close> gives 0 and installed anew when it gives 1.
\<close>

definition getsets_step :: "bool \<Rightarrow> nat \<Rightarrow> patch_state \<Rightarrow> failure + patch_state" where
  "getsets_step ndebug i st =
     (let gsp = ps_gsp st ! i
      in case map_of (tp_dict (ps_type st)) (gs_name gsp) of
           None \<Rightarrow> Inr (install_descr i st)
         | Some have_descr \<Rightarrow>
             (if gs_name gsp \<noteq> ''__doc__'' \<and> \<not> ndebug then Inl AssertFail
              else (let st1 = (if gs_name gsp = ''__doc__''
                               then st\<lparr>ps_doc_descr := Some have_descr\<rparr> else st)
                    in case fixup_getset (ps_type st1) (gs_name gsp) gsp of
                         (False, _) \<Rightarrow> Inr st1
                       | (True, gsp') \<Rightarrow>
                           Inr (install_descr i (st1\<lparr>ps_gsp := (ps_gsp st1)[i := gsp']\<rparr>)))))"

fun getsets_loop :: "bool \<Rightarrow> nat list \<Rightarrow> patch_state \<Rightarrow> failure + patch_state" where
  "getsets_loop ndebug [] st = Inr st"
| "getsets_loop ndebug (i # rest) st = (case getsets_step ndebug i st of
      Inl e \<Rightarrow> Inl e
    | Inr st' \<Rightarrow> getsets_loop ndebug rest st')"

definition add_more_getsets :: "bool \<Rightarrow> patch_state \<Rightarrow> failure + patch_state" where
  "add_more_getsets ndebug st = getsets_loop ndebug [0..<length (ps_gsp st)] st"

text \<open>What two states of a run of \<open>add_more_getsets\<close> share when the run leaves the tables alone.\<close>

definition same_tables :: "patch_state \<Rightarrow> patch_state \<Rightarrow> bool" where
  "same_tables st st' = (ps_gsp st' = ps_gsp st
     \<and> tp_getset (ps_type st') = tp_getset (ps_type st)
     \<and> tp_members (ps_type st') = tp_members (ps_type st))"

section \<open>Instances of the dependencies and registered stores\<close>

text \<open>
  Modelled from the spec: \<open>String::getSnakeCaseName\<close> is not among the sources. The
  specification describes it as a deterministic, pure and idempotent case-style
  transform of a member name, for example camel case to snake case. This instance
  replaces every upper-case letter by an underscore and the lower-case letter.
\<close>

definition is_upper :: "char \<Rightarrow> bool" where
  "is_upper c = (65 \<le> (of_char c :: nat) \<and> (of_char c :: nat) \<le> 90)"

definition to_lower :: "char \<Rightarrow> char" where
  "to_lower c = char_of ((of_char c :: nat) + 32)"

fun snake_case :: "string \<Rightarrow> string" where
  "snake_case [] = []"
| "snake_case (c # cs) =
     (if is_upper c then CHR ''_'' # to_lower c # snake_case cs else c # snake_case cs)"

text \<open>
  A parser that builds an empty PropsDict from an empty list of strings and otherwise
  a PropsDict with one member \<open>doThing\<close>; a parser that has no result to give and
  returns \<open>None\<close>, raising nothing; a callable that returns \<open>NULL\<close> without setting
  an exception; a \<open>zlib\<close> whose \<open>decompress\<close> expands one input, to a line with its
  newline followed by text without one, and rejects every other input.
\<close>

definition example_parser :: "pyob \<Rightarrow> string list \<Rightarrow> addr \<Rightarrow> init_result \<times> hobj list" where
  "example_parser k strs n =
     (if strs = [] then (InitReturned n, [HDict []])
      else (InitReturned n, [HDict [(''doThing'', n + 1)],
              HDict [(''name'', n + 2), (''multi'', n + 3)], HStr ''doThing'', HOther]))"

definition example_expand :: "char list \<Rightarrow> char list option" where
  "example_expand bs =
     (if bs = ''packed'' then Some (''Obj.doThing(self)->int'' @ [CHR 0x0A] @ ''Obj.cut(self)'')
      else None)"

definition example_deps :: deps where
  "example_deps = \<lparr>zlib_module = ZlibDecompressFn example_expand,
     pyside_type_init_func = example_parser,
     getSnakeCaseName = snake_case, utf8_decode = Some\<rparr>"

definition none_result_deps :: deps where
  "none_result_deps = \<lparr>zlib_module = NoZlibModule,
     pyside_type_init_func = (\<lambda>k strs n. (InitReturned n, [HOther])),
     getSnakeCaseName = snake_case, utf8_decode = Some\<rparr>"

definition null_callable_deps :: deps where
  "null_callable_deps = \<lparr>zlib_module = NoZlibModule,
     pyside_type_init_func = (\<lambda>k strs n. (InitNull, [])),
     getSnakeCaseName = snake_case, utf8_decode = Some\<rparr>"

definition strings_globals :: globals where
  "strings_globals =
     snd (PySide_BuildSignatureArgs True widget_type [''Widget.doThing(self)->int''] init_globals)"

definition bytes_globals :: globals where
  "bytes_globals = snd (PySide_BuildSignatureArgsByte True widget_type ''corrupt'' init_globals)"

definition empty_bytes_globals :: globals where
  "empty_bytes_globals = snd (PySide_BuildSignatureArgsByte True widget_type [] init_globals)"

text \<open>
  Two types to patch. The first has its own \<open>__doc__\<close> in \<open>tp_getset\<close> and the
  descriptor for it in its dictionary, as the builtin function type has; the table to
  install overrides \<open>__doc__\<close>. The states after one and after two runs are written
  out. The second type has no tables and an empty dictionary; the table to install
  adds a new attribute.
\<close>

definition doc_patch :: patch_state where
  "doc_patch = \<lparr>ps_type = \<lparr>tp_getset = Some [\<lparr>gs_name = ''__doc__'', gs_get = Some 1,
         gs_set = None, gs_doc = Some ''doc'', gs_closure = None\<rparr>],
       tp_members = None, tp_dict = [(''__doc__'', NsObject 0)]\<rparr>,
     ps_gsp = [\<lparr>gs_name = ''__doc__'', gs_get = Some 7, gs_set = None, gs_doc = None,
         gs_closure = None\<rparr>],
     ps_doc_descr = None, ps_next = 1\<rparr>"

definition doc_patch_once :: patch_state where
  "doc_patch_once = \<lparr>ps_type = \<lparr>tp_getset = Some [\<lparr>gs_name = ''__doc__'', gs_get = Some 1,
         gs_set = None, gs_doc = Some ''doc'', gs_closure = None\<rparr>],
       tp_members = None, tp_dict = [(''__doc__'', NsDescr 1 0)]\<rparr>,
     ps_gsp = [\<lparr>gs_name = ''__doc__'', gs_get = Some 7, gs_set = None, gs_doc = Some ''doc'',
         gs_closure = None\<rparr>],
     ps_doc_descr = Some (NsObject 0), ps_next = 2\<rparr>"

definition doc_patch_twice :: patch_state where
  "doc_patch_twice = \<lparr>ps_type = \<lparr>tp_getset = Some [\<lparr>gs_name = ''__doc__'', gs_get = Some 1,
         gs_set = None, gs_doc = Some ''doc'', gs_closure = None\<rparr>],
       tp_members = None, tp_dict = [(''__doc__'', NsDescr 2 0)]\<rparr>,
     ps_gsp = [\<lparr>gs_name = ''__doc__'', gs_get = Some 7, gs_set = None, gs_doc = Some ''doc'',
         gs_closure = None\<rparr>],
     ps_doc_descr = Some (NsDescr 1 0), ps_next = 3\<rparr>"

definition sig_patch :: patch_state where
  "sig_patch = \<lparr>ps_type = \<lparr>tp_getset = None, tp_members = None, tp_dict = []\<rparr>,
     ps_gsp = [\<lparr>gs_name = ''__signature__'', gs_get = Some 9, gs_set = None, gs_doc = None,
         gs_closure = None\<rparr>],
     ps_doc_descr = None, ps_next = 0\<rparr>"

definition sig_patch_once :: patch_state where
  "sig_patch_once = \<lparr>ps_type = \<lparr>tp_getset = None, tp_members = None,
       tp_dict = [(''__signature__'', NsDescr 0 0)]\<rparr>,
     ps_gsp = [\<lparr>gs_name = ''__signature__'', gs_get = Some 9, gs_set = None, gs_doc = None,
         gs_closure = None\<rparr>],
     ps_doc_descr = None, ps_next = 1\<rparr>"

text \<open>
  A PropsDict at address 0 with a plain member \<open>resizeEvent\<close> (its \<open>multi\<close> is no list)
  and an overloaded member \<open>setValue\<close> with a list of two overload records; and the
  store after one run of \<open>insert_snake_case_variants\<close> on it.
\<close>

definition example_heap :: heap where
  "example_heap =
     [HDict [(''resizeEvent'', 1), (''setValue'', 2)],
      HDict [(''name'', 3), (''multi'', 4)],
      HDict [(''multi'', 5), (''fullname'', 4)],
      HStr ''resizeEvent'', HOther, HList [Some 6, Some 7],
      HDict [(''name'', 8), (''multi'', 4)], HDict [(''name'', 8)], HStr ''setValue'']"

definition example_heap_variants :: heap where
  "example_heap_variants =
     [HDict [(''resizeEvent'', 1), (''setValue'', 2), (''resize_event'', 11), (''set_value'', 13)],
      HDict [(''name'', 3), (''multi'', 4)],
      HDict [(''multi'', 5), (''fullname'', 4)],
      HStr ''resizeEvent'', HOther, HList [Some 6, Some 7],
      HDict [(''name'', 8), (''multi'', 4)], HDict [(''name'', 8)], HStr ''setValue'',
      HDict [(''resize_event'', 11), (''set_value'', 13)],
      HStr ''resize_event'', HDict [(''name'', 10), (''multi'', 4)],
      HStr ''set_value'', HDict [(''multi'', 14), (''fullname'', 4)],
      HList [Some 15, Some 16], HDict [(''name'', 12), (''multi'', 4)], HDict [(''name'', 12)]]"

section \<open>Properties of the key resolver\<close>

text \<open>
  C6. \<open>GetTypeKey\<close> on a class that has \<open>__module__\<close> and \<open>__qualname__\<close> returns the pair
  of the two; on a module (the lookup of \<open>__module__\<close> fails) it returns the key made of
  the plain \<open>__name__\<close> alone; on an entity that is no module and has \<open>__module__\<close> but
  no \<open>__qualname__\<close> it ends in \<open>Py_FatalError\<close>.
\<close>

theorem GetTypeKey_cases:
  "(PyObject_GetAttr (PyTypeOb attrs) ''__module__'' = Some m \<longrightarrow>
    PyObject_GetAttr (PyTypeOb attrs) ''__qualname__'' = Some q \<longrightarrow>
      GetTypeKey ndebug (PyTypeOb attrs) = Inr (PyTuple [m, q]))
   \<and> (PyObject_GetAttr (PyModuleOb mattrs) ''__module__'' = None \<longrightarrow>
      PyObject_GetAttr (PyModuleOb mattrs) ''__name__'' = Some n \<longrightarrow>
      GetTypeKey ndebug (PyModuleOb mattrs) = Inr n)
   \<and> (\<not> PyModule_Check ob \<longrightarrow> (ndebug \<or> PyType_Check ob) \<longrightarrow>
      PyObject_GetAttr ob ''__module__'' = Some m' \<longrightarrow>
      PyObject_GetAttr ob ''__qualname__'' = None \<longrightarrow>
      GetTypeKey ndebug ob = Inl (Fatal ''Signature: missing class name in GetTypeKey''))"
  by (auto simp: GetTypeKey_def PyType_Check_def PyModule_Check_def)

theorem GetTypeKey_cases_witness:
  "GetTypeKey False (PyTypeOb [(''__module__'', PyStr ''mod''), (''__qualname__'', PyStr ''Widget'')])
      = Inr (PyTuple [PyStr ''mod'', PyStr ''Widget''])
   \<and> GetTypeKey False (PyModuleOb [(''__name__'', PyStr ''mod'')]) = Inr (PyStr ''mod'')
   \<and> GetTypeKey False (PyTypeOb [(''__module__'', PyStr ''mod'')])
      = Inl (Fatal ''Signature: missing class name in GetTypeKey'')"
  using GetTypeKey_cases [of "[(''__module__'', PyStr ''mod''), (''__qualname__'', PyStr ''Widget'')]"
      "PyStr ''mod''" "PyStr ''Widget''" False "[(''__name__'', PyStr ''mod'')]" "PyStr ''mod''"
      "PyTypeOb [(''__module__'', PyStr ''mod'')]" "PyStr ''mod''"]
  by (simp add: PyObject_GetAttr_def PyType_Check_def PyModule_Check_def)

lemma Py_TYPE_is_type: "PyType_Check (Py_TYPE x)"
  by (cases x) (simp_all add: Py_TYPE_def PyType_Check_def builtin_type_def)

lemma get_class_of_cf_result:
  "\<exists>r. get_class_of_cf md (PyCFunctionOb self attrs) = Inr r \<and> (PyType_Check r \<or> PyModule_Check r)"
  by (simp add: get_class_of_cf_def Let_def Py_TYPE_is_type)

text \<open>
  C5 (as the code has it). \<open>GetClassOrModOf\<close> ends in \<open>Py_FatalError\<close> exactly for the
  entities that are not a type, a builtin function or method, a static method, a method
  descriptor or a wrapper descriptor; a module is among the fatal ones. For an entity
  of a supported kind (a static method wrapping a builtin function) the result is a
  type or a module, and it is this one: a type gives itself; a method descriptor and a
  wrapper descriptor give their \<open>__objclass__\<close>; a builtin function with a self gives
  the self when that is a type or a module and the type of the self otherwise; a
  builtin function without a self gives what it would give with, as its self, its
  entry in \<open>map_dict\<close>, or else the entry of \<open>(function, "overload")\<close>, and with neither
  entry it gives the type of \<open>None\<close>; a static method gives what the builtin function
  it wraps gives.
\<close>

theorem GetClassOrModOf_kinds:
  "(GetClassOrModOf md ob = Inl (Fatal ''unexpected type in GetClassOrModOf'')
      \<longleftrightarrow> \<not> supported_kind ob)
   \<and> (supported_kind ob \<longrightarrow> (\<forall>f. ob = PyStaticMethodOb f \<longrightarrow> PyCFunction_Check f) \<longrightarrow>
        (\<exists>r. GetClassOrModOf md ob = Inr r \<and> (PyType_Check r \<or> PyModule_Check r)))
   \<and> GetClassOrModOf md (PyTypeOb attrs) = Inr (PyTypeOb attrs)
   \<and> GetClassOrModOf md (PyMethodDescrOb tattrs n) = Inr (PyTypeOb tattrs)
   \<and> GetClassOrModOf md (PyWrapperDescrOb tattrs n) = Inr (PyTypeOb tattrs)
   \<and> (PyType_Check s \<or> PyModule_Check s \<longrightarrow>
        GetClassOrModOf md (PyCFunctionOb (Some s) fattrs) = Inr s)
   \<and> (\<not> PyType_Check s \<longrightarrow> \<not> PyModule_Check s \<longrightarrow>
        GetClassOrModOf md (PyCFunctionOb (Some s) fattrs) = Inr (Py_TYPE s))
   \<and> (md (PyCFunctionOb None fattrs) = Some t \<longrightarrow>
        GetClassOrModOf md (PyCFunctionOb None fattrs)
          = GetClassOrModOf md (PyCFunctionOb (Some t) fattrs))
   \<and> (md (PyCFunctionOb None fattrs) = None \<longrightarrow>
      md (PyTuple [PyCFunctionOb None fattrs, PyStr ''overload'']) = Some t \<longrightarrow>
        GetClassOrModOf md (PyCFunctionOb None fattrs)
          = GetClassOrModOf md (PyCFunctionOb (Some t) fattrs))
   \<and> (md (PyCFunctionOb None fattrs) = None \<longrightarrow>
      md (PyTuple [PyCFunctionOb None fattrs, PyStr ''overload'']) = None \<longrightarrow>
        GetClassOrModOf md (PyCFunctionOb None fattrs) = Inr (builtin_type ''NoneType''))
   \<and> (PyCFunction_Check g \<longrightarrow>
        GetClassOrModOf md (PyStaticMethodOb g) = GetClassOrModOf md g)"
proof -
  have kinds: "(GetClassOrModOf md ob = Inl (Fatal ''unexpected type in GetClassOrModOf'')
      \<longleftrightarrow> \<not> supported_kind ob)
   \<and> (supported_kind ob \<longrightarrow> (\<forall>f. ob = PyStaticMethodOb f \<longrightarrow> PyCFunction_Check f) \<longrightarrow>
        (\<exists>r. GetClassOrModOf md ob = Inr r \<and> (PyType_Check r \<or> PyModule_Check r)))"
  proof (cases ob)
    case (PyCFunctionOb self attrs)
    then show ?thesis
      using get_class_of_cf_result [of md self attrs]
      by (auto simp: GetClassOrModOf_def supported_kind_def)
  next
    case (PyStaticMethodOb f)
    show ?thesis
    proof (cases f)
      case (PyCFunctionOb self attrs)
      then show ?thesis
        using get_class_of_cf_result [of md self attrs] PyStaticMethodOb
        by (auto simp: GetClassOrModOf_def supported_kind_def get_class_of_sm_def
            PyObject_GetAttr_def)
    qed (simp_all add: PyStaticMethodOb GetClassOrModOf_def supported_kind_def
        get_class_of_sm_def PyObject_GetAttr_def get_class_of_cf_def PyCFunction_Check_def)
  qed (simp_all add: GetClassOrModOf_def supported_kind_def get_class_of_descr_def
      PyObject_GetAttr_def PyType_Check_def)
  have ty: "GetClassOrModOf md (PyTypeOb attrs) = Inr (PyTypeOb attrs)"
    by (simp add: GetClassOrModOf_def)
  have descr: "GetClassOrModOf md (PyMethodDescrOb tattrs n) = Inr (PyTypeOb tattrs)"
      "GetClassOrModOf md (PyWrapperDescrOb tattrs n) = Inr (PyTypeOb tattrs)"
    by (simp_all add: GetClassOrModOf_def get_class_of_descr_def PyObject_GetAttr_def)
  have cf: "GetClassOrModOf md (PyCFunctionOb self fattrs) = get_class_of_cf md (PyCFunctionOb self fattrs)"
    for self
    by (simp add: GetClassOrModOf_def)
  have self: "PyType_Check s \<or> PyModule_Check s \<longrightarrow>
        GetClassOrModOf md (PyCFunctionOb (Some s) fattrs) = Inr s"
      "\<not> PyType_Check s \<longrightarrow> \<not> PyModule_Check s \<longrightarrow>
        GetClassOrModOf md (PyCFunctionOb (Some s) fattrs) = Inr (Py_TYPE s)"
    by (simp_all add: cf get_class_of_cf_def)
  have noself: "md (PyCFunctionOb None fattrs) = Some t \<longrightarrow>
        GetClassOrModOf md (PyCFunctionOb None fattrs)
          = GetClassOrModOf md (PyCFunctionOb (Some t) fattrs)"
      "md (PyCFunctionOb None fattrs) = None \<longrightarrow>
      md (PyTuple [PyCFunctionOb None fattrs, PyStr ''overload'']) = Some t \<longrightarrow>
        GetClassOrModOf md (PyCFunctionOb None fattrs)
          = GetClassOrModOf md (PyCFunctionOb (Some t) fattrs)"
      "md (PyCFunctionOb None fattrs) = None \<longrightarrow>
      md (PyTuple [PyCFunctionOb None fattrs, PyStr ''overload'']) = None \<longrightarrow>
        GetClassOrModOf md (PyCFunctionOb None fattrs) = Inr (builtin_type ''NoneType'')"
    by (simp_all add: cf get_class_of_cf_def PyType_Check_def PyModule_Check_def Py_TYPE_def)
  have sm: "PyCFunction_Check g \<longrightarrow>
        GetClassOrModOf md (PyStaticMethodOb g) = GetClassOrModOf md g"
    by (cases g) (simp_all add: PyCFunction_Check_def GetClassOrModOf_def get_class_of_sm_def
        PyObject_GetAttr_def)
  show ?thesis
    using kinds [THEN conjunct1] kinds [THEN conjunct2] ty descr self noself sm
    by (intro conjI)
qed

theorem GetClassOrModOf_kinds_witness:
  "GetClassOrModOf Map.empty (PyCFunctionOb (Some (PyModuleOb [(''__name__'', PyStr ''QtCore'')])) [])
      = Inr (PyModuleOb [(''__name__'', PyStr ''QtCore'')])
   \<and> GetClassOrModOf Map.empty (PyStr ''abc'') = Inl (Fatal ''unexpected type in GetClassOrModOf'')
   \<and> GetClassOrModOf Map.empty (PyCFunctionOb (Some (PyStr ''abc'')) []) = Inr (builtin_type ''str'')
   \<and> GetClassOrModOf Map.empty (PyCFunctionOb None []) = Inr (builtin_type ''NoneType'')
   \<and> GetClassOrModOf [PyCFunctionOb None [] \<mapsto> PyTypeOb [(''__qualname__'', PyStr ''Widget'')]]
        (PyCFunctionOb None []) = Inr (PyTypeOb [(''__qualname__'', PyStr ''Widget'')])
   \<and> GetClassOrModOf [PyTuple [PyCFunctionOb None [], PyStr ''overload'']
          \<mapsto> PyTypeOb [(''__qualname__'', PyStr ''Widget'')]]
        (PyCFunctionOb None []) = Inr (PyTypeOb [(''__qualname__'', PyStr ''Widget'')])
   \<and> GetClassOrModOf Map.empty
        (PyStaticMethodOb (PyCFunctionOb (Some (PyTypeOb [(''__qualname__'', PyStr ''Widget'')])) []))
      = Inr (PyTypeOb [(''__qualname__'', PyStr ''Widget'')])"
  using GetClassOrModOf_kinds [of Map.empty
      "PyCFunctionOb (Some (PyModuleOb [(''__name__'', PyStr ''QtCore'')])) []"
      "[]" "[]" "''n''" "PyModuleOb [(''__name__'', PyStr ''QtCore'')]" "[]"
      "PyNone" "PyCFunctionOb (Some (PyTypeOb [(''__qualname__'', PyStr ''Widget'')])) []"]
    GetClassOrModOf_kinds [of
      "[PyCFunctionOb None [] \<mapsto> PyTypeOb [(''__qualname__'', PyStr ''Widget'')]]"
      "PyStr ''abc''" "[]" "[]" "''n''" "PyStr ''abc''" "[]"
      "PyTypeOb [(''__qualname__'', PyStr ''Widget'')]" "PyCFunctionOb None []"]
    GetClassOrModOf_kinds [of
      "[PyTuple [PyCFunctionOb None [], PyStr ''overload'']
          \<mapsto> PyTypeOb [(''__qualname__'', PyStr ''Widget'')]]"
      "PyStaticMethodOb (PyCFunctionOb (Some (PyTypeOb [(''__qualname__'', PyStr ''Widget'')])) [])"
      "[]" "[]" "''n''" "PyTypeOb [(''__qualname__'', PyStr ''Widget'')]" "[]"
      "PyTypeOb [(''__qualname__'', PyStr ''Widget'')]"
      "PyCFunctionOb (Some (PyTypeOb [(''__qualname__'', PyStr ''Widget'')])) []"]
  by (simp add: supported_kind_def PyType_Check_def PyModule_Check_def PyCFunction_Check_def
      Py_TYPE_def GetClassOrModOf_def get_class_of_cf_def)

text \<open>
  A module object is one of the kinds the specification lists as classified, and the code sends
  it to \<open>Py_FatalError\<close>.
\<close>

theorem GetClassOrModOf_module_counterexample:
  "PyModule_Check (PyModuleOb [(''__name__'', PyStr ''QtCore'')])
   \<and> GetClassOrModOf Map.empty (PyModuleOb [(''__name__'', PyStr ''QtCore'')])
      = Inl (Fatal ''unexpected type in GetClassOrModOf'')"
  by (simp add: GetClassOrModOf_def PyModule_Check_def)

section \<open>Properties of the signature store\<close>

lemma byteExpand_frame:
  "byteExpand d bs s = (r, s1) \<Longrightarrow> s1 = s\<lparr>calls := calls s @ zlib_calls d bs\<rparr>"
  by (auto simp: byteExpand_def zlib_calls_def Let_def split: zlib_env.splits option.splits)

lemma byteExpand_error:
  "fst (byteExpand d bs s) = Inl e \<Longrightarrow> e \<in> {Raised ImportError, Raised NameError, Raised ValueError}"
  by (auto simp: byteExpand_def Let_def split: zlib_env.splits option.splits)

lemma bytesToStrings_frame:
  "bytesToStrings d bs s = (r, s1) \<Longrightarrow>
     s1 = s\<lparr>calls := calls s @ (if bs = [] then [] else zlib_calls d bs)\<rparr>"
  by (auto simp: bytesToStrings_def split: if_splits sum.splits prod.splits dest: byteExpand_frame)

lemma stored_strings_frame:
  "stored_strings d numkey s = (r, s1) \<Longrightarrow>
     s1 = s\<lparr>calls := calls s @ (case numkey of
         ByteBlob bs \<Rightarrow> (if bs = [] then [] else zlib_calls d bs) | _ \<Rightarrow> [])\<rparr>"
  by (auto simp: stored_strings_def split: entry.splits sum.splits prod.splits dest: bytesToStrings_frame)

lemma split_buffer_Nil: "split_buffer [] = ([], [None])"
  by (simp add: split_buffer_def lines_loop.simps)

lemma stored_strings_empty_blob: "stored_strings d (ByteBlob []) s = (Inr [], s)"
  by (simp add: stored_strings_def bytesToStrings_def split_buffer_Nil c_array_view_def)

lemma insert_empty_dict:
  "heap_get h a = Some (HDict []) \<Longrightarrow>
     insert_snake_case_variants snake a h = Inr (h @ [HDict []])"
  by (auto simp: insert_snake_case_variants_def PyDict_New_def heap_alloc_def dict_items_def
      heap_get_def nth_append PyDict_Merge_keep_def list_update_append1 list_update_same_conv[THEN iffD2]
      split: if_splits)

text \<open>
  C2. For a registration of compressed bytes of length zero, \<open>bytesToStrings\<close> does not
  call the decompressor and yields the empty array of strings; resolving the key calls
  the parser once, with the empty list, and makes no call into \<open>zlib\<close>; with a parser
  that answers the empty list by an empty PropsDict, the key resolves to that empty
  PropsDict.
\<close>

theorem empty_payload_skips_decompressor:
  assumes reg: "arg_dict s k = Some (ByteBlob [])"
  shows "bytesToStrings d [] s = (Inr ([], [None]), s)
       \<and> c_array_view ([], [None]) = []
       \<and> calls (snd (TypeKey_to_PropsDict d k s)) = calls s @ [TypeInit k []]
       \<and> (pyside_type_init_func d k [] (length (gheap s)) = (InitReturned (length (gheap s)), [HDict []])
            \<longrightarrow> fst (TypeKey_to_PropsDict d k s) = Inr (length (gheap s))
              \<and> heap_get (gheap (snd (TypeKey_to_PropsDict d k s))) (length (gheap s)) = Some (HDict [])
              \<and> arg_dict (snd (TypeKey_to_PropsDict d k s)) k = Some (PropsOb (length (gheap s))))"
proof -
  have a: "bytesToStrings d [] s = (Inr ([], [None]), s)"
    by (simp add: bytesToStrings_def split_buffer_Nil)
  have b: "c_array_view ([], [None]) = []"
    by (simp add: c_array_view_def)
  have c: "calls (snd (TypeKey_to_PropsDict d k s)) = calls s @ [TypeInit k []]"
    using reg
    by (simp add: TypeKey_to_PropsDict_def PySide_BuildSignatureProps_def stored_strings_empty_blob
        Let_def get_empty_dict_def PyDict_New_def heap_alloc_def PyObject_CallObject_def
        split: prod.splits init_result.splits sum.splits option.splits)
  have e: "fst (TypeKey_to_PropsDict d k s) = Inr (length (gheap s))
        \<and> heap_get (gheap (snd (TypeKey_to_PropsDict d k s))) (length (gheap s)) = Some (HDict [])
        \<and> arg_dict (snd (TypeKey_to_PropsDict d k s)) k = Some (PropsOb (length (gheap s)))"
    if p: "pyside_type_init_func d k [] (length (gheap s)) = (InitReturned (length (gheap s)), [HDict []])"
  proof -
    have g: "heap_get (gheap s @ [HDict []]) (length (gheap s)) = Some (HDict [])"
      by (simp add: heap_get_def)
    show ?thesis
      using reg p insert_empty_dict [OF g]
      by (simp add: TypeKey_to_PropsDict_def PySide_BuildSignatureProps_def
          PyObject_CallObject_def stored_strings_empty_blob heap_get_def nth_append)
  qed
  show ?thesis using a b c e by blast
qed

text \<open>
  C3. For registered compressed bytes that fail to decompress, \<open>TypeKey_to_PropsDict\<close>
  returns the error with its exception set; nothing but the record of the one call
  into \<open>zlib\<close> (none when the module or its function is missing) changes in the state:
  the entry of the key is still the raw bytes, no dictionary is returned, and the
  parser is not called.
\<close>

theorem decompression_failure_is_hard_error:
  assumes reg: "arg_dict s k = Some (ByteBlob bs)" and size: "bs \<noteq> []"
      and fails: "fst (byteExpand d bs s) = Inl e"
  shows "TypeKey_to_PropsDict d k s = (Inl e, s\<lparr>calls := calls s @ zlib_calls d bs\<rparr>)
       \<and> e \<in> {Raised ImportError, Raised NameError, Raised ValueError}
       \<and> arg_dict (snd (TypeKey_to_PropsDict d k s)) k = Some (ByteBlob bs)
       \<and> length (zlib_calls d bs) \<le> 1"
proof -
  obtain s1 where ex: "byteExpand d bs s = (Inl e, s1)"
    using fails by (cases "byteExpand d bs s") auto
  have b2s: "bytesToStrings d bs s = (Inl e, s1)"
    using ex size by (simp add: bytesToStrings_def)
  have st: "stored_strings d (ByteBlob bs) s = (Inl e, s1)"
    using b2s by (simp add: stored_strings_def)
  have res: "TypeKey_to_PropsDict d k s = (Inl e, s1)"
    using reg st by (simp add: TypeKey_to_PropsDict_def PySide_BuildSignatureProps_def)
  have fr: "s1 = s\<lparr>calls := calls s @ zlib_calls d bs\<rparr>"
    using byteExpand_frame [OF ex] .
  have one: "length (zlib_calls d bs) \<le> 1"
    by (simp add: zlib_calls_def split: zlib_env.splits)
  show ?thesis
    using res reg byteExpand_error [OF fails] fr one by simp
qed

lemma PyObject_CallObject_result: "PyObject_CallObject outcome \<noteq> InitNull"
  by (cases outcome) (simp_all add: PyObject_CallObject_def)

lemma insert_not_a_dict:
  "a < length h \<Longrightarrow> \<not> is_dict h a \<Longrightarrow>
     insert_snake_case_variants snake a h = Inl (Raised SystemError)"
  by (auto simp: insert_snake_case_variants_def PyDict_New_def heap_alloc_def dict_items_def
      heap_get_def nth_append PyDict_Merge_keep_def is_dict_def split: hobj.splits)

text \<open>
  C4 (as the code has it). When the parser gives no result and raises nothing, which
  is a callable that returns \<open>NULL\<close> with no exception set, or one that returns an object
  that is not a dictionary, as \<open>None\<close> is, \<open>TypeKey_to_PropsDict\<close> does not return an
  empty PropsDict: it fails with \<open>SystemError\<close>, set by \<open>PyObject_CallObject\<close> in the first
  case and by \<open>PyDict_Merge\<close> in \<open>insert_snake_case_variants\<close> in the second. Nothing is
  stored under the key, whose entry is still the raw one, and \<open>empty_dict\<close> is not
  touched; the state has only the objects of the parser and the record of its call
  more.
\<close>

theorem parser_without_result_is_an_error:
  assumes reg: "arg_dict s k = Some numkey" and raw: "\<forall>a. numkey \<noteq> PropsOb a"
      and strs: "stored_strings d numkey s = (Inr strings, s1)"
      and parse: "pyside_type_init_func d k strings (length (gheap s1)) = (res, new_objs)"
      and nores: "res = InitNull
                \<or> (\<exists>a. res = InitReturned a \<and> a < length (gheap s1 @ new_objs)
                       \<and> \<not> is_dict (gheap s1 @ new_objs) a)"
  shows "TypeKey_to_PropsDict d k s
           = (Inl (Raised SystemError),
              s1\<lparr>gheap := gheap s1 @ new_objs, calls := calls s1 @ [TypeInit k strings]\<rparr>)
       \<and> arg_dict (snd (TypeKey_to_PropsDict d k s)) k = Some numkey
       \<and> empty_dict (snd (TypeKey_to_PropsDict d k s)) = empty_dict s"
proof -
  have fr: "s1 = s\<lparr>calls := calls s1\<rparr>"
    using stored_strings_frame [OF strs] by (cases s) (simp)
  have e1: "empty_dict s1 = empty_dict s" and a1: "arg_dict s1 = arg_dict s"
    by (subst fr, simp)+
  have tk: "TypeKey_to_PropsDict d k s = PySide_BuildSignatureProps d k s"
    using reg raw by (cases numkey) (simp_all add: TypeKey_to_PropsDict_def)
  have b: "PySide_BuildSignatureProps d k s
      = (Inl (Raised SystemError),
         s1\<lparr>gheap := gheap s1 @ new_objs, calls := calls s1 @ [TypeInit k strings]\<rparr>)"
    using nores
  proof
    assume "res = InitNull"
    then show ?thesis
      using reg strs parse
      by (simp add: PySide_BuildSignatureProps_def PyObject_CallObject_def)
  next
    assume "\<exists>a. res = InitReturned a \<and> a < length (gheap s1 @ new_objs)
                \<and> \<not> is_dict (gheap s1 @ new_objs) a"
    then obtain a where r: "res = InitReturned a" and lt: "a < length (gheap s1 @ new_objs)"
        and nd: "\<not> is_dict (gheap s1 @ new_objs) a"
      by auto
    show ?thesis
      using reg strs parse r insert_not_a_dict [OF lt nd, of "getSnakeCaseName d"]
      by (simp add: PySide_BuildSignatureProps_def PyObject_CallObject_def)
  qed
  show ?thesis
    using tk b reg by (simp add: a1 e1)
qed

text \<open>
  C1. For a registered key whose first resolution succeeds, the entry of the key is
  afterwards the built PropsDict, a second call returns the same object and leaves the
  whole state as it is (no call into \<open>zlib\<close> or the parser, no change of the store), and
  the first call, when it found the raw entry, has made exactly one call of the parser,
  after at most the one of \<open>zlib\<close>.
\<close>

theorem first_build_is_cached:
  assumes reg: "arg_dict s k = Some numkey"
      and first: "TypeKey_to_PropsDict d k s = (Inr dict, s1)"
  shows "arg_dict s1 k = Some (PropsOb dict)
       \<and> TypeKey_to_PropsDict d k s1 = (Inr dict, s1)
       \<and> ((\<forall>a. numkey \<noteq> PropsOb a) \<longrightarrow>
            (\<exists>strings zs. calls s1 = calls s @ zs @ [TypeInit k strings]
               \<and> zs = (case numkey of ByteBlob bs \<Rightarrow> (if bs = [] then [] else zlib_calls d bs) | _ \<Rightarrow> [])))"
proof (cases "\<exists>a. numkey = PropsOb a")
  case True
  then show ?thesis using reg first by (auto simp: TypeKey_to_PropsDict_def)
next
  case False
  then have tk: "TypeKey_to_PropsDict d k s = PySide_BuildSignatureProps d k s"
    using reg by (cases numkey) (simp_all add: TypeKey_to_PropsDict_def)
  obtain r s0 where ss: "stored_strings d numkey s = (r, s0)"
    by (cases "stored_strings d numkey s") auto
  have fr: "s0 = s\<lparr>calls := calls s @ (case numkey of
         ByteBlob bs \<Rightarrow> (if bs = [] then [] else zlib_calls d bs) | _ \<Rightarrow> [])\<rparr>"
    using stored_strings_frame [OF ss] .
  have c0: "calls s0 = calls s @ (case numkey of
         ByteBlob bs \<Rightarrow> (if bs = [] then [] else zlib_calls d bs) | _ \<Rightarrow> [])"
    by (subst fr) simp
  obtain strings where r: "r = Inr strings"
    using first tk reg ss by (cases r) (auto simp: PySide_BuildSignatureProps_def)
  obtain res new_objs where p: "pyside_type_init_func d k strings (length (gheap s0)) = (res, new_objs)"
    by (cases "pyside_type_init_func d k strings (length (gheap s0))") auto
  have nn: "PyObject_CallObject res \<noteq> InitNull"
    by (rule PyObject_CallObject_result)
  have b: "arg_dict s1 k = Some (PropsOb dict) \<and> calls s1 = calls s0 @ [TypeInit k strings]"
    using first tk reg ss r p nn
    by (cases "PyObject_CallObject res")
       (auto simp: PySide_BuildSignatureProps_def Let_def split: sum.splits)
  then have "TypeKey_to_PropsDict d k s1 = (Inr dict, s1)"
    by (simp add: TypeKey_to_PropsDict_def)
  then show ?thesis using b c0 False by auto
qed

subsection \<open>The store on the example registrations\<close>

text \<open>The definitions that evaluate the example stores.\<close>

lemmas ex_defs = example_deps_def none_result_deps_def strings_globals_def bytes_globals_def
  empty_bytes_globals_def init_globals_def widget_type_def widget_key_def
  PySide_BuildSignatureArgs_def PySide_BuildSignatureArgsByte_def GetTypeKey_def
  PyObject_GetAttr_def PyType_Check_def PyModule_Check_def example_parser_def

theorem empty_payload_skips_decompressor_witness:
  "fst (TypeKey_to_PropsDict example_deps widget_key empty_bytes_globals) = Inr 0
   \<and> heap_get (gheap (snd (TypeKey_to_PropsDict example_deps widget_key empty_bytes_globals))) 0
        = Some (HDict [])
   \<and> calls (snd (TypeKey_to_PropsDict example_deps widget_key empty_bytes_globals))
        = [TypeInit widget_key []]"
  using empty_payload_skips_decompressor [of empty_bytes_globals widget_key example_deps]
  by (simp add: ex_defs)

theorem decompression_failure_is_hard_error_witness:
  "TypeKey_to_PropsDict example_deps widget_key bytes_globals
     = (Inl (Raised ValueError), bytes_globals\<lparr>calls := [ZlibDecompress ''corrupt'']\<rparr>)"
  using decompression_failure_is_hard_error [of bytes_globals widget_key "''corrupt''"
      example_deps "Raised ValueError"]
  by (simp add: ex_defs byteExpand_def zlib_calls_def example_expand_def)

theorem parser_without_result_is_an_error_witness:
  "TypeKey_to_PropsDict none_result_deps widget_key strings_globals
     = (Inl (Raised SystemError),
        strings_globals\<lparr>gheap := [HOther],
          calls := [TypeInit widget_key [''Widget.doThing(self)->int'']]\<rparr>)"
proof -
  have reg: "arg_dict strings_globals widget_key = Some (StrArray [''Widget.doThing(self)->int''])"
    by (simp add: ex_defs)
  have raw: "\<forall>a. StrArray [''Widget.doThing(self)->int''] \<noteq> PropsOb a"
    by simp
  have strs: "stored_strings none_result_deps (StrArray [''Widget.doThing(self)->int''])
      strings_globals = (Inr [''Widget.doThing(self)->int''], strings_globals)"
    by (simp add: stored_strings_def none_result_deps_def)
  have parse: "pyside_type_init_func none_result_deps widget_key [''Widget.doThing(self)->int'']
      (length (gheap strings_globals)) = (InitReturned 0, [HOther])"
    by (simp add: ex_defs)
  have nores: "InitReturned 0 = InitNull
      \<or> (\<exists>a. InitReturned 0 = InitReturned a \<and> a < length (gheap strings_globals @ [HOther])
             \<and> \<not> is_dict (gheap strings_globals @ [HOther]) a)"
    by (simp add: ex_defs is_dict_def heap_get_def)
  have g: "gheap strings_globals = []"
    by (simp add: ex_defs)
  have c: "calls strings_globals = []"
    by (simp add: ex_defs)
  show ?thesis
    using parser_without_result_is_an_error [OF reg raw strs parse nores]
    by (simp add: g c)
qed

text \<open>
  With a parser that returns \<open>None\<close>, the resolution of the registered key does not
  return an empty dictionary: it fails with \<open>SystemError\<close>, the entry of the key is
  still the raw array of strings, and \<open>empty_dict\<close> has not been created.
\<close>

theorem parser_without_result_counterexample:
  "fst (TypeKey_to_PropsDict none_result_deps widget_key strings_globals)
     = Inl (Raised SystemError)
   \<and> arg_dict (snd (TypeKey_to_PropsDict none_result_deps widget_key strings_globals)) widget_key
     = Some (StrArray [''Widget.doThing(self)->int''])
   \<and> empty_dict (snd (TypeKey_to_PropsDict none_result_deps widget_key strings_globals)) = None"
  by (simp add: ex_defs TypeKey_to_PropsDict_def PySide_BuildSignatureProps_def stored_strings_def
      PyObject_CallObject_def insert_snake_case_variants_def PyDict_New_def heap_alloc_def
      dict_items_def heap_get_def PyDict_Merge_keep_def Let_def)

text \<open>
  With a callable that returns \<open>NULL\<close> and sets no exception, the call is reported as
  \<open>SystemError\<close>, and the resolution fails in the same way.
\<close>

lemma null_callable_is_an_error:
  "fst (TypeKey_to_PropsDict null_callable_deps widget_key strings_globals)
     = Inl (Raised SystemError)
   \<and> arg_dict (snd (TypeKey_to_PropsDict null_callable_deps widget_key strings_globals)) widget_key
     = Some (StrArray [''Widget.doThing(self)->int''])
   \<and> empty_dict (snd (TypeKey_to_PropsDict null_callable_deps widget_key strings_globals)) = None"
  by (simp add: ex_defs null_callable_deps_def TypeKey_to_PropsDict_def
      PySide_BuildSignatureProps_def stored_strings_def PyObject_CallObject_def)

theorem first_build_is_cached_witness:
  "fst (TypeKey_to_PropsDict example_deps widget_key strings_globals) = Inr 0
   \<and> TypeKey_to_PropsDict example_deps widget_key
       (snd (TypeKey_to_PropsDict example_deps widget_key strings_globals))
     = (Inr 0, snd (TypeKey_to_PropsDict example_deps widget_key strings_globals))
   \<and> arg_dict (snd (TypeKey_to_PropsDict example_deps widget_key strings_globals)) widget_key
     = Some (PropsOb 0)
   \<and> calls (snd (TypeKey_to_PropsDict example_deps widget_key strings_globals))
     = [TypeInit widget_key [''Widget.doThing(self)->int'']]"
proof -
  have ev: "fst (TypeKey_to_PropsDict example_deps widget_key strings_globals) = Inr 0
      \<and> calls (snd (TypeKey_to_PropsDict example_deps widget_key strings_globals))
        = [TypeInit widget_key [''Widget.doThing(self)->int'']]"
    by (simp add: ex_defs TypeKey_to_PropsDict_def PySide_BuildSignatureProps_def stored_strings_def
      PyObject_CallObject_def
      insert_snake_case_variants_def PyDict_New_def heap_alloc_def dict_items_def heap_get_def
      build_new_entry_def PyDict_Copy_def PyDict_SetItem_def PyDict_GetItem_def
      PyDict_Merge_keep_def is_upper_def to_lower_def)
  have first: "TypeKey_to_PropsDict example_deps widget_key strings_globals
      = (Inr 0, snd (TypeKey_to_PropsDict example_deps widget_key strings_globals))"
    using ev by (metis prod.collapse)
  have reg: "arg_dict strings_globals widget_key = Some (StrArray [''Widget.doThing(self)->int''])"
    by (simp add: ex_defs)
  show ?thesis
    using first_build_is_cached [OF reg first] ev by simp
qed

section \<open>Properties of the line splitter\<close>

lemma length_line_starts: "length (line_starts p line cs) = count_list cs (CHR 0x0A)"
  by (induction cs arbitrary: p line) auto

lemma lines_loop_eq:
  "p \<le> length cdata \<Longrightarrow>
   pos + length (line_starts p line (drop p cdata)) \<le> length lines \<Longrightarrow>
   lines_loop cdata p line pos lines =
     (take p cdata @ nul_newlines (drop p cdata),
      take pos lines @ map Some (line_starts p line (drop p cdata))
        @ drop (pos + length (line_starts p line (drop p cdata))) lines,
      pos + length (line_starts p line (drop p cdata)))"
proof (induction cdata p line pos lines rule: lines_loop.induct)
  case (1 cdata p line pos lines)
  show ?case
  proof (cases "p < length cdata")
    case False
    then show ?thesis using "1.prems"
      by (subst lines_loop.simps) (simp add: nul_newlines_def)
  next
    case True
    then have dr: "drop p cdata = cdata ! p # drop (Suc p) cdata"
      by (simp add: Cons_nth_drop_Suc)
    show ?thesis
    proof (cases "cdata ! p = CHR 0x0A")
      case lf: True
      have room: "pos < length lines"
        using "1.prems"(2) dr lf by simp
      have ih: "lines_loop (cdata[p := CHR 0x00]) (Suc p) (Suc p) (Suc pos) (lines[pos := Some line]) =
        (take (Suc p) (cdata[p := CHR 0x00]) @ nul_newlines (drop (Suc p) (cdata[p := CHR 0x00])),
         take (Suc pos) (lines[pos := Some line])
           @ map Some (line_starts (Suc p) (Suc p) (drop (Suc p) (cdata[p := CHR 0x00])))
           @ drop (Suc pos + length (line_starts (Suc p) (Suc p) (drop (Suc p) (cdata[p := CHR 0x00]))))
               (lines[pos := Some line]),
         Suc pos + length (line_starts (Suc p) (Suc p) (drop (Suc p) (cdata[p := CHR 0x00]))))"
        using "1.IH"(1) [OF True lf] True "1.prems"(2) dr lf by simp
      have t1: "take (Suc p) (cdata[p := CHR 0x00]) = take p cdata @ [CHR 0x00]"
        using True by (simp add: take_Suc_conv_app_nth)
      have t2: "take (Suc pos) (lines[pos := Some line]) = take pos lines @ [Some line]"
        using room by (simp add: take_Suc_conv_app_nth)
      show ?thesis
        using True lf ih t1 t2 dr
        by (subst lines_loop.simps) (simp add: nul_newlines_def)
    next
      case nlf: False
      have ih: "lines_loop cdata (Suc p) line pos lines =
        (take (Suc p) cdata @ nul_newlines (drop (Suc p) cdata),
         take pos lines @ map Some (line_starts (Suc p) line (drop (Suc p) cdata))
           @ drop (pos + length (line_starts (Suc p) line (drop (Suc p) cdata))) lines,
         pos + length (line_starts (Suc p) line (drop (Suc p) cdata)))"
        using "1.IH"(2) [OF True nlf] True "1.prems"(2) dr nlf by simp
      show ?thesis
        using True nlf ih dr
        by (subst lines_loop.simps) (simp add: nul_newlines_def take_Suc_conv_app_nth)
    qed
  qed
qed

lemma split_buffer_eq:
  "split_buffer data = (nul_newlines data, map Some (line_starts 0 0 data) @ [None])"
proof -
  have dr: "drop n (replicate (n + 1) (None :: nat option)) = [None]" for n
    by (induction n) auto
  have "lines_loop data 0 0 0 (replicate (count_list data (CHR 0x0A) + 1) None) =
     (nul_newlines data, map Some (line_starts 0 0 data) @ [None],
      length (line_starts 0 0 data))"
    using lines_loop_eq [of 0 data 0 0 "replicate (count_list data (CHR 0x0A) + 1) None"] dr
    by (simp add: length_line_starts del: replicate_Suc replicate.simps)
  then show ?thesis
    by (simp add: split_buffer_def length_line_starts list_update_append)
qed

lemma takeWhile_before_nul:
  "takeWhile (\<lambda>c. c \<noteq> CHR 0x00) (xs @ CHR 0x00 # ys) = takeWhile (\<lambda>c. c \<noteq> CHR 0x00) xs"
  by (induction xs) auto

lemma view_lines:
  "line \<le> length pre \<Longrightarrow>
   map (c_str (pre @ nul_newlines suf)) (line_starts (length pre) line suf)
     = map (takeWhile (\<lambda>c. c \<noteq> CHR 0x00)) (complete_lines (drop line pre) suf)"
proof (induction suf arbitrary: pre line)
  case Nil
  then show ?case by simp
next
  case (Cons c cs)
  show ?case
  proof (cases "c = CHR 0x0A")
    case True
    have "map (c_str ((pre @ [CHR 0x00]) @ nul_newlines cs)) (line_starts (length (pre @ [CHR 0x00])) (Suc (length pre)) cs)
       = map (takeWhile (\<lambda>c. c \<noteq> CHR 0x00)) (complete_lines (drop (Suc (length pre)) (pre @ [CHR 0x00])) cs)"
      using Cons.IH [of "Suc (length pre)" "pre @ [CHR 0x00]"] by simp
    moreover have "c_str (pre @ CHR 0x00 # nul_newlines cs) line
        = takeWhile (\<lambda>c. c \<noteq> CHR 0x00) (drop line pre)"
      using Cons.prems by (simp add: c_str_def takeWhile_before_nul)
    ultimately show ?thesis
      using True by (simp add: nul_newlines_def)
  next
    case False
    have "map (c_str ((pre @ [c]) @ nul_newlines cs)) (line_starts (length (pre @ [c])) line cs)
       = map (takeWhile (\<lambda>c. c \<noteq> CHR 0x00)) (complete_lines (drop line (pre @ [c])) cs)"
      using Cons.IH [of line "pre @ [c]"] Cons.prems by simp
    then show ?thesis
      using False Cons.prems
      by (simp add: nul_newlines_def)
  qed
qed

lemma c_array_view_split_buffer:
  "c_array_view (split_buffer data)
     = map (takeWhile (\<lambda>c. c \<noteq> CHR 0x00)) (complete_lines [] data)"
proof -
  have tw: "takeWhile (\<lambda>p. p \<noteq> None) (map Some xs @ [None]) = map Some xs" for xs :: "nat list"
    by (induction xs) auto
  have "c_array_view (split_buffer data) = map (c_str (nul_newlines data)) (line_starts 0 0 data)"
    unfolding split_buffer_eq c_array_view_def prod.case tw by (simp add: comp_def)
  then show ?thesis
    using view_lines [of 0 "[]" data] by simp
qed

lemma length_complete_lines: "length (complete_lines cur data) = count_list data (CHR 0x0A)"
  by (induction data arbitrary: cur) auto

lemma complete_lines_concat:
  "CHR 0x0A \<notin> set cur \<Longrightarrow>
   \<exists>rest. cur @ data = concat (map (\<lambda>l. l @ [CHR 0x0A]) (complete_lines cur data)) @ rest
     \<and> CHR 0x0A \<notin> set rest \<and> (\<forall>l \<in> set (complete_lines cur data). CHR 0x0A \<notin> set l)"
proof (induction data arbitrary: cur)
  case Nil
  then show ?case by simp
next
  case (Cons c cs)
  show ?case
  proof (cases "c = CHR 0x0A")
    case True
    obtain rest where "[] @ cs = concat (map (\<lambda>l. l @ [CHR 0x0A]) (complete_lines [] cs)) @ rest"
      "CHR 0x0A \<notin> set rest" "\<forall>l \<in> set (complete_lines [] cs). CHR 0x0A \<notin> set l"
      using Cons.IH [of "[]"] by auto
    then show ?thesis using True Cons.prems by auto
  next
    case False
    obtain rest where "(cur @ [c]) @ cs = concat (map (\<lambda>l. l @ [CHR 0x0A]) (complete_lines (cur @ [c]) cs)) @ rest"
      "CHR 0x0A \<notin> set rest" "\<forall>l \<in> set (complete_lines (cur @ [c]) cs). CHR 0x0A \<notin> set l"
      using Cons.IH [of "cur @ [c]"] Cons.prems False by auto
    then show ?thesis using False by auto
  qed
qed

lemma takeWhile_no_nul:
  "CHR 0x00 \<notin> set l \<Longrightarrow> takeWhile (\<lambda>c. c \<noteq> CHR 0x00) l = l"
  by (induction l) auto

lemma complete_lines_subset:
  "l \<in> set (complete_lines cur data) \<Longrightarrow> set l \<subseteq> set cur \<union> set data"
proof (induction data arbitrary: cur)
  case Nil
  then show ?case by simp
next
  case (Cons c cs)
  show ?case
  proof (cases "c = CHR 0x0A")
    case True
    then have "l = cur \<or> l \<in> set (complete_lines [] cs)"
      using Cons.prems by simp
    then show ?thesis
      using Cons.IH [of "[]"] by auto
  next
    case False
    then have "l \<in> set (complete_lines (cur @ [c]) cs)"
      using Cons.prems by simp
    then show ?thesis
      using Cons.IH [of "cur @ [c]"] by auto
  qed
qed

text \<open>
  C10. For a payload that the decompressor yields, \<open>bytesToStrings\<close> returns an array
  that ends with the null pointer and holds, before it, one string for each newline of
  the payload: the texts before each newline, in order (each read as a C string, so up
  to a zero byte, which a text payload does not contain). What follows the last
  newline is in none of the strings, and these strings are all that is decoded and
  handed on to the parser.
\<close>

theorem bytesToStrings_complete_lines:
  assumes z: "zlib_module d = ZlibDecompressFn expand" and size: "bs \<noteq> []"
      and ex: "expand bs = Some payload"
  shows "\<exists>cstrings s1 rest. bytesToStrings d bs s = (Inr cstrings, s1)
     \<and> snd cstrings = takeWhile (\<lambda>p. p \<noteq> None) (snd cstrings) @ [None]
     \<and> length (c_array_view cstrings) = count_list payload (CHR 0x0A)
     \<and> c_array_view cstrings
          = map (takeWhile (\<lambda>c. c \<noteq> CHR 0x00)) (complete_lines [] payload)
     \<and> (CHR 0x00 \<notin> set payload \<longrightarrow> c_array_view cstrings = complete_lines [] payload)
     \<and> payload = concat (map (\<lambda>l. l @ [CHR 0x0A]) (complete_lines [] payload)) @ rest
     \<and> CHR 0x0A \<notin> set rest
     \<and> (\<forall>l \<in> set (complete_lines [] payload). CHR 0x0A \<notin> set l)
     \<and> fst (stored_strings d (ByteBlob bs) s)
          = address_ptr_to_stringlist (utf8_decode d)
              (map (takeWhile (\<lambda>c. c \<noteq> CHR 0x00)) (complete_lines [] payload))"
proof -
  have run: "bytesToStrings d bs s
      = (Inr (split_buffer payload), s\<lparr>calls := calls s @ [ZlibDecompress bs]\<rparr>)"
    using z size ex by (simp add: bytesToStrings_def byteExpand_def)
  have tw: "takeWhile (\<lambda>p. p \<noteq> None) (map Some xs @ [None]) = map Some xs" for xs :: "nat list"
    by (induction xs) auto
  have nt: "snd (split_buffer payload)
      = takeWhile (\<lambda>p. p \<noteq> None) (snd (split_buffer payload)) @ [None]"
    unfolding split_buffer_eq snd_conv tw ..
  have view: "c_array_view (split_buffer payload)
      = map (takeWhile (\<lambda>c. c \<noteq> CHR 0x00)) (complete_lines [] payload)"
    by (rule c_array_view_split_buffer)
  have len: "length (c_array_view (split_buffer payload)) = count_list payload (CHR 0x0A)"
    by (simp add: view length_complete_lines)
  have nonul: "c_array_view (split_buffer payload) = complete_lines [] payload"
    if "CHR 0x00 \<notin> set payload"
  proof -
    have "takeWhile (\<lambda>c. c \<noteq> CHR 0x00) l = l" if "l \<in> set (complete_lines [] payload)" for l
      using complete_lines_subset [OF that] \<open>CHR 0x00 \<notin> set payload\<close>
      by (intro takeWhile_no_nul) auto
    then show ?thesis
      by (simp add: view map_idI)
  qed
  obtain rest where "payload = concat (map (\<lambda>l. l @ [CHR 0x0A]) (complete_lines [] payload)) @ rest"
    "CHR 0x0A \<notin> set rest" "\<forall>l \<in> set (complete_lines [] payload). CHR 0x0A \<notin> set l"
    using complete_lines_concat [of "[]" payload] by auto
  moreover have "fst (stored_strings d (ByteBlob bs) s)
      = address_ptr_to_stringlist (utf8_decode d)
          (map (takeWhile (\<lambda>c. c \<noteq> CHR 0x00)) (complete_lines [] payload))"
    by (simp add: stored_strings_def run view)
  ultimately show ?thesis
    using run nt view len nonul by auto
qed

theorem bytesToStrings_complete_lines_witness:
  "map_sum id c_array_view (fst (bytesToStrings example_deps ''packed'' init_globals))
     = Inr [''Obj.doThing(self)->int'']"
proof -
  have z: "zlib_module example_deps = ZlibDecompressFn example_expand"
    by (simp add: example_deps_def)
  have ex: "example_expand ''packed''
      = Some (''Obj.doThing(self)->int'' @ [CHR 0x0A] @ ''Obj.cut(self)'')"
    by (simp add: example_expand_def)
  obtain cstrings s1 where "bytesToStrings example_deps ''packed'' init_globals = (Inr cstrings, s1)"
    and "c_array_view cstrings = map (takeWhile (\<lambda>c. c \<noteq> CHR 0x00))
          (complete_lines [] (''Obj.doThing(self)->int'' @ [CHR 0x0A] @ ''Obj.cut(self)''))"
    using bytesToStrings_complete_lines [OF z _ ex, of init_globals] by auto
  then show ?thesis by simp
qed

section \<open>Properties of the descriptor installation\<close>

lemma map_fst_dict_set:
  "map fst (dict_set kvs k v)
     = (if k \<in> fst ` set kvs then map fst kvs else map fst kvs @ [k])"
  by (induction kvs) force+

lemma keys_dict_set: "fst ` set (dict_set kvs k v) = insert k (fst ` set kvs)"
proof -
  have "fst ` set (dict_set kvs k v) = set (map fst (dict_set kvs k v))"
    by simp
  also have "\<dots> = insert k (fst ` set kvs)"
    unfolding map_fst_dict_set by auto
  finally show ?thesis .
qed

lemma fixup_getset_tables:
  "tp_getset ty' = tp_getset ty \<Longrightarrow> tp_members ty' = tp_members ty \<Longrightarrow>
     fst (fixup_getset ty' n g') = fst (fixup_getset ty n g)"
  by (simp add: fixup_getset_def split: option.splits)

lemma getsets_step_absent:
  assumes "map_of (tp_dict (ps_type st)) (gs_name (ps_gsp st ! i)) = None"
  shows "\<exists>st'. getsets_step ndebug i st = Inr st' \<and> same_tables st st'
     \<and> fst ` set (tp_dict (ps_type st'))
          = insert (gs_name (ps_gsp st ! i)) (fst ` set (tp_dict (ps_type st)))"
  using assms by (simp add: getsets_step_def install_descr_def same_tables_def keys_dict_set)

lemma getsets_step_present:
  assumes "map_of (tp_dict (ps_type st)) (gs_name (ps_gsp st ! i)) = Some have_descr"
      and "ndebug \<or> gs_name (ps_gsp st ! i) = ''__doc__''"
      and "\<not> fst (fixup_getset (ps_type st) (gs_name (ps_gsp st ! i)) (ps_gsp st ! i))"
  shows "\<exists>st'. getsets_step ndebug i st = Inr st' \<and> same_tables st st'
     \<and> ps_type st' = ps_type st \<and> ps_next st' = ps_next st"
  using assms
  by (auto simp: getsets_step_def same_tables_def Let_def split: prod.splits)

lemma getsets_loop_first:
  assumes "\<forall>i \<in> set idxs. ndebug \<or> gs_name (ps_gsp st ! i) = ''__doc__''"
      and "\<forall>i \<in> set idxs. \<not> fst (fixup_getset (ps_type st) (gs_name (ps_gsp st ! i)) (ps_gsp st ! i))"
  shows "\<exists>st'. getsets_loop ndebug idxs st = Inr st' \<and> same_tables st st'
     \<and> fst ` set (tp_dict (ps_type st'))
          = fst ` set (tp_dict (ps_type st)) \<union> (\<lambda>i. gs_name (ps_gsp st ! i)) ` set idxs"
  using assms
proof (induction idxs arbitrary: st)
  case Nil
  then show ?case by (simp add: same_tables_def)
next
  case (Cons i idxs)
  let ?n = "gs_name (ps_gsp st ! i)"
  obtain st1 where step: "getsets_step ndebug i st = Inr st1" and tab: "same_tables st st1"
    and keys: "fst ` set (tp_dict (ps_type st1)) = insert ?n (fst ` set (tp_dict (ps_type st)))"
  proof (cases "map_of (tp_dict (ps_type st)) ?n")
    case None
    then show ?thesis using getsets_step_absent [of st i ndebug] that by auto
  next
    case (Some have_descr)
    then have "?n \<in> fst ` set (tp_dict (ps_type st))"
      by (metis map_of_eq_None_iff option.distinct(1))
    then show ?thesis
      using getsets_step_present [OF Some, of ndebug] Cons.prems that by (auto simp: insert_absorb)
  qed
  have g: "ps_gsp st1 = ps_gsp st"
    using tab by (simp add: same_tables_def)
  have fx: "fst (fixup_getset (ps_type st1) n g') = fst (fixup_getset (ps_type st) n g')" for n g'
    using tab by (intro fixup_getset_tables) (simp_all add: same_tables_def)
  obtain st' where loop: "getsets_loop ndebug idxs st1 = Inr st'" and tab': "same_tables st1 st'"
    and keys': "fst ` set (tp_dict (ps_type st'))
          = fst ` set (tp_dict (ps_type st1)) \<union> (\<lambda>i. gs_name (ps_gsp st1 ! i)) ` set idxs"
    using Cons.IH [of st1] Cons.prems by (auto simp: g fx)
  show ?case
    using step loop tab tab' keys keys' by (auto simp: same_tables_def g)
qed

lemma getsets_loop_second:
  assumes "\<forall>i \<in> set idxs. ndebug \<or> gs_name (ps_gsp st ! i) = ''__doc__''"
      and "\<forall>i \<in> set idxs. \<not> fst (fixup_getset (ps_type st) (gs_name (ps_gsp st ! i)) (ps_gsp st ! i))"
      and "\<forall>i \<in> set idxs. gs_name (ps_gsp st ! i) \<in> fst ` set (tp_dict (ps_type st))"
  shows "\<exists>st'. getsets_loop ndebug idxs st = Inr st' \<and> ps_type st' = ps_type st
     \<and> ps_gsp st' = ps_gsp st \<and> ps_next st' = ps_next st"
  using assms
proof (induction idxs arbitrary: st)
  case Nil
  then show ?case by simp
next
  case (Cons i idxs)
  let ?n = "gs_name (ps_gsp st ! i)"
  obtain have_descr where hd: "map_of (tp_dict (ps_type st)) ?n = Some have_descr"
    using Cons.prems(3) by (cases "map_of (tp_dict (ps_type st)) ?n") (auto simp: map_of_eq_None_iff)
  obtain st1 where step: "getsets_step ndebug i st = Inr st1" and tab: "same_tables st st1"
    and ty: "ps_type st1 = ps_type st" and nx: "ps_next st1 = ps_next st"
    using getsets_step_present [OF hd, of ndebug] Cons.prems by auto
  have g: "ps_gsp st1 = ps_gsp st"
    using tab by (simp add: same_tables_def)
  obtain st' where "getsets_loop ndebug idxs st1 = Inr st'" "ps_type st' = ps_type st1"
     "ps_gsp st' = ps_gsp st1" "ps_next st' = ps_next st1"
    using Cons.IH [of st1] Cons.prems by (auto simp: g ty)
  then show ?case
    using step g ty nx by simp
qed

text \<open>
  C9 (as the code has it). For a table whose names are in neither \<open>tp_getset\<close> nor
  \<open>tp_members\<close> of the type, in a build without assertions or with \<open>__doc__\<close> as the
  only name: a first run of \<open>add_more_getsets\<close> succeeds and leaves every name of the
  table in the dictionary of the type; a second run succeeds too, finds each name
  there and skips it, so that it creates no descriptor and changes neither the
  dictionary nor the table.
\<close>

theorem add_more_getsets_second_run_skips:
  assumes build: "ndebug \<or> (\<forall>g \<in> set (ps_gsp st). gs_name g = ''__doc__'')"
      and notab: "\<forall>g \<in> set (ps_gsp st). \<not> fst (fixup_getset (ps_type st) (gs_name g) g)"
  shows "\<exists>st1 st2. add_more_getsets ndebug st = Inr st1 \<and> add_more_getsets ndebug st1 = Inr st2
        \<and> ps_type st2 = ps_type st1 \<and> ps_gsp st2 = ps_gsp st1 \<and> ps_next st2 = ps_next st1
        \<and> fst ` set (tp_dict (ps_type st1))
            = fst ` set (tp_dict (ps_type st)) \<union> gs_name ` set (ps_gsp st)"
proof -
  let ?idxs = "[0..<length (ps_gsp st)]"
  have b: "\<forall>i \<in> set ?idxs. ndebug \<or> gs_name (ps_gsp st ! i) = ''__doc__''"
    using build by auto
  have n: "\<forall>i \<in> set ?idxs. \<not> fst (fixup_getset (ps_type st) (gs_name (ps_gsp st ! i)) (ps_gsp st ! i))"
    using notab by auto
  obtain st1 where r1: "getsets_loop ndebug ?idxs st = Inr st1" and tab: "same_tables st st1"
    and keys: "fst ` set (tp_dict (ps_type st1))
          = fst ` set (tp_dict (ps_type st)) \<union> (\<lambda>i. gs_name (ps_gsp st ! i)) ` set ?idxs"
    using getsets_loop_first [OF b n] by auto
  have g: "ps_gsp st1 = ps_gsp st"
    using tab by (simp add: same_tables_def)
  have fx: "fst (fixup_getset (ps_type st1) n g') = fst (fixup_getset (ps_type st) n g')" for n g'
    using tab by (intro fixup_getset_tables) (simp_all add: same_tables_def)
  have names: "(\<lambda>i. gs_name (ps_gsp st ! i)) ` set ?idxs = gs_name ` set (ps_gsp st)"
  proof -
    have "(!) (ps_gsp st) ` set ?idxs = set (ps_gsp st)"
      by (simp add: nth_image)
    then have "gs_name ` ((!) (ps_gsp st) ` set ?idxs) = gs_name ` set (ps_gsp st)"
      by simp
    then show ?thesis
      by (simp add: image_image)
  qed
  have b1: "\<forall>i \<in> set ?idxs. ndebug \<or> gs_name (ps_gsp st1 ! i) = ''__doc__''"
    using b by (simp add: g)
  have n1: "\<forall>i \<in> set ?idxs. \<not> fst (fixup_getset (ps_type st1) (gs_name (ps_gsp st1 ! i)) (ps_gsp st1 ! i))"
    using n by (simp add: g fx)
  have p1: "\<forall>i \<in> set ?idxs. gs_name (ps_gsp st1 ! i) \<in> fst ` set (tp_dict (ps_type st1))"
    using keys by (auto simp: g)
  obtain st2 where "getsets_loop ndebug ?idxs st1 = Inr st2" "ps_type st2 = ps_type st1"
     "ps_gsp st2 = ps_gsp st1" "ps_next st2 = ps_next st1"
    using getsets_loop_second [OF b1 n1 p1] by auto
  then show ?thesis
    using r1 keys names by (auto simp: add_more_getsets_def g)
qed

theorem add_more_getsets_second_run_skips_witness:
  "add_more_getsets True sig_patch = Inr sig_patch_once
   \<and> add_more_getsets True sig_patch_once = Inr sig_patch_once"
proof -
  have ev: "add_more_getsets True sig_patch = Inr sig_patch_once"
    by (simp add: add_more_getsets_def getsets_step_def install_descr_def sig_patch_def
        sig_patch_once_def)
  have build: "True \<or> (\<forall>g \<in> set (ps_gsp sig_patch). gs_name g = ''__doc__'')"
    by simp
  have notab: "\<forall>g \<in> set (ps_gsp sig_patch).
      \<not> fst (fixup_getset (ps_type sig_patch) (gs_name g) g)"
    by (simp add: sig_patch_def fixup_getset_def)
  obtain st2 where "add_more_getsets True sig_patch_once = Inr st2"
    "ps_type st2 = ps_type sig_patch_once" "ps_gsp st2 = ps_gsp sig_patch_once"
    "ps_next st2 = ps_next sig_patch_once"
    using add_more_getsets_second_run_skips [OF build notab] ev by auto
  moreover have "ps_doc_descr st2 = ps_doc_descr sig_patch_once"
    using calculation(1)
    by (auto simp: add_more_getsets_def getsets_step_def sig_patch_once_def fixup_getset_def)
  ultimately show ?thesis
    using ev by (cases st2) (simp add: sig_patch_once_def)
qed

text \<open>
  On the type that has \<open>__doc__\<close> in its own \<open>tp_getset\<close>, the second run does not
  skip: it replaces the descriptor installed by the first run by a new one, and
  \<open>*doc_descr\<close> then holds the descriptor of the first run, no more the original.
\<close>

theorem add_more_getsets_reinstalls_counterexample:
  "add_more_getsets True doc_patch = Inr doc_patch_once
   \<and> add_more_getsets True doc_patch_once = Inr doc_patch_twice
   \<and> tp_dict (ps_type doc_patch_once) = [(''__doc__'', NsDescr 1 0)]
   \<and> tp_dict (ps_type doc_patch_twice) = [(''__doc__'', NsDescr 2 0)]"
  by (simp add: add_more_getsets_def getsets_step_def install_descr_def fixup_getset_def
      doc_patch_def doc_patch_once_def doc_patch_twice_def)

text \<open>In a debug build, a second run over a name other than \<open>__doc__\<close> stops at the assertion.\<close>

lemma add_more_getsets_debug_second_run:
  "add_more_getsets False sig_patch = Inr sig_patch_once
   \<and> add_more_getsets False sig_patch_once = Inl AssertFail"
  by (simp add: add_more_getsets_def getsets_step_def install_descr_def sig_patch_def
      sig_patch_once_def)

text \<open>
  A round of the loop for a name that the dictionary already holds and that the tables
  of the type define does not skip: it puts a new descriptor under the name, whatever
  was there.
\<close>

lemma dict_set_lookup: "map_of (dict_set kvs k v) k = Some v"
  by (induction kvs) auto

lemma fixup_getset_name:
  "gs_name (snd (fixup_getset ty n g)) = gs_name g"
  by (simp add: fixup_getset_def split: option.splits)

lemma getsets_step_reinstalls:
  assumes "map_of (tp_dict (ps_type st)) (gs_name (ps_gsp st ! i)) = Some have_descr"
      and "ndebug \<or> gs_name (ps_gsp st ! i) = ''__doc__''"
      and "fst (fixup_getset (ps_type st) (gs_name (ps_gsp st ! i)) (ps_gsp st ! i))"
      and "i < length (ps_gsp st)"
  shows "\<exists>st'. getsets_step ndebug i st = Inr st'
     \<and> map_of (tp_dict (ps_type st')) (gs_name (ps_gsp st ! i)) = Some (NsDescr (ps_next st) i)
     \<and> ps_next st' = Suc (ps_next st)"
proof -
  obtain g' where f: "fixup_getset (ps_type st) (gs_name (ps_gsp st ! i)) (ps_gsp st ! i) = (True, g')"
    using assms(3) by (cases "fixup_getset (ps_type st) (gs_name (ps_gsp st ! i)) (ps_gsp st ! i)") auto
  have n: "gs_name g' = gs_name (ps_gsp st ! i)"
    using fixup_getset_name [of "ps_type st" "gs_name (ps_gsp st ! i)" "ps_gsp st ! i"] f by simp
  show ?thesis
    using assms(1,2,4) f n
    by (auto simp: getsets_step_def install_descr_def Let_def dict_set_lookup)
qed

section \<open>Properties of the name variants\<close>

lemma map_of_dict_set: "map_of (dict_set kvs k v) k' = (if k' = k then Some v else map_of kvs k')"
  by (induction kvs) auto

lemma set_dict_set: "(k', v') \<in> set (dict_set kvs k v) \<Longrightarrow> (k', v') = (k, v) \<or> (k', v') \<in> set kvs"
  by (induction kvs) (auto split: if_splits)

lemma PyDict_Copy_Some:
  "a < length h \<Longrightarrow> h ! a = HDict kvs \<Longrightarrow> PyDict_Copy h a = Some (length h, h @ [HDict kvs])"
  by (simp add: PyDict_Copy_def heap_get_def heap_alloc_def)

lemma PyDict_SetItem_Some:
  "a < length h \<Longrightarrow> h ! a = HDict kvs \<Longrightarrow>
     PyDict_SetItem h a k v = Some (h[a := HDict (dict_set kvs k v)])"
  by (simp add: PyDict_SetItem_def heap_get_def)

lemma PyList_SetItem_Some:
  "l < length h \<Longrightarrow> h ! l = HList xs \<Longrightarrow> idx < length xs \<Longrightarrow>
     PyList_SetItem h l idx v = Some (h[l := HList (xs[idx := Some v])])"
  by (simp add: PyList_SetItem_def heap_get_def)

lemma PyDict_GetItem_eq:
  "a < length h \<Longrightarrow> h ! a = HDict kvs \<Longrightarrow> PyDict_GetItem h a k = map_of kvs k"
  by (simp add: PyDict_GetItem_def heap_get_def)

lemma is_dict_iff: "is_dict h a \<longleftrightarrow> a < length h \<and> (\<exists>kvs. h ! a = HDict kvs)"
  by (auto simp: is_dict_def heap_get_def split: hobj.splits)

lemma copy_multi_spec:
  assumes "n \<le> length h" and "list_all (ok_item n h) items"
      and "n \<le> list" and "list < length h" and "h ! list = HList xs"
      and "idx + length items = length xs"
  shows "\<exists>h' ys. copy_multi nm list idx items h = Inr h'
           \<and> length h \<le> length h'
           \<and> (\<forall>a < length h. a \<noteq> list \<longrightarrow> h' ! a = h ! a)
           \<and> h' ! list = HList (take idx xs @ ys)
           \<and> list_all2 (renamed_entry h h' nm) items ys"
  using assms
proof (induction items arbitrary: h idx xs)
  case Nil
  then show ?case by simp
next
  case (Cons it items)
  from Cons.prems(2) obtain e ekvs where it: "it = Some e" and e: "e < n" "e < length h"
      and ekvs: "h ! e = HDict ekvs"
    using Cons.prems(1) by (cases it) (auto simp: ok_item_def is_dict_iff)
  define h1 where "h1 = h @ [HDict ekvs]"
  define h2 where "h2 = h1[length h := HDict (dict_set ekvs ''name'' nm)]"
  define h3 where "h3 = h2[list := HList (xs[idx := Some (length h)])]"
  have cp: "PyDict_Copy h e = Some (length h, h1)"
    using e ekvs by (simp add: PyDict_Copy_Some h1_def)
  have si: "PyDict_SetItem h1 (length h) ''name'' nm = Some h2"
    by (simp add: PyDict_SetItem_Some h1_def h2_def)
  have idx: "idx < length xs"
    using Cons.prems(6) by simp
  have l2: "list < length h2" "h2 ! list = HList xs"
    using Cons.prems(4,5) by (simp_all add: h2_def h1_def nth_append)
  have li: "PyList_SetItem h2 list idx (length h) = Some h3"
    using l2 idx by (simp add: PyList_SetItem_Some h3_def)
  have len3: "length h3 = Suc (length h)"
    by (simp add: h3_def h2_def h1_def)
  have old: "h3 ! a = h ! a" if "a < length h" "a \<noteq> list" for a
    using that by (simp add: h3_def h2_def h1_def nth_append)
  have dup3: "h3 ! length h = HDict (dict_set ekvs ''name'' nm)"
    using Cons.prems(4) by (simp add: h3_def h2_def h1_def)
  have ok3: "list_all (ok_item n h3) items"
  proof -
    have "ok_item n h3 x" if "ok_item n h x" for x
      using that Cons.prems(1,3) old
      by (cases x) (auto simp: ok_item_def is_dict_iff len3)
    then show ?thesis
      using Cons.prems(2) by (auto simp: list_all_iff)
  qed
  have l3: "list < length h3" "h3 ! list = HList (xs[idx := Some (length h)])"
    using Cons.prems(4) by (simp_all add: h3_def h2_def h1_def)
  obtain h' ys where rec: "copy_multi nm list (Suc idx) items h3 = Inr h'"
      and len': "length h3 \<le> length h'"
      and fr': "\<forall>a < length h3. a \<noteq> list \<longrightarrow> h' ! a = h3 ! a"
      and lst': "h' ! list = HList (take (Suc idx) (xs[idx := Some (length h)]) @ ys)"
      and ren': "list_all2 (renamed_entry h3 h' nm) items ys"
    using Cons.IH [where h = h3 and idx = "Suc idx" and xs = "xs[idx := Some (length h)]"]
      Cons.prems(1,3,6) ok3 l3
    by (auto simp: len3)
  have run: "copy_multi nm list idx (it # items) h = Inr h'"
    using it cp si li rec by simp
  have fr: "\<forall>a < length h. a \<noteq> list \<longrightarrow> h' ! a = h ! a"
    using fr' old by (simp add: len3)
  have lst: "h' ! list = HList (take idx xs @ Some (length h) # ys)"
    using lst' idx by (simp add: take_Suc_conv_app_nth)
  have hd: "renamed_entry h h' nm it (Some (length h))"
    using it ekvs len' fr' dup3 Cons.prems(4)
    by (simp add: renamed_entry_def len3)
  have tl: "list_all2 (renamed_entry h h' nm) items ys"
  proof -
    have "renamed_entry h h' nm x y" if r: "renamed_entry h3 h' nm x y" and o: "ok_item n h x" for x y
    proof -
      obtain e' where x: "x = Some e'" "e' < n"
        using o by (cases x) (auto simp: ok_item_def)
      then have "h3 ! e' = h ! e'"
        using old Cons.prems(1,3) by simp
      then show ?thesis
        using r x by (cases y) (auto simp: renamed_entry_def len3)
    qed
    then show ?thesis
      using ren' Cons.prems(2)
      by (auto simp: list_all2_conv_all_nth list_all_length)
  qed
  show ?case
    using run len' fr lst hd tl by (auto simp: len3)
qed


lemma ok_item_ext:
  "ok_item n h x \<Longrightarrow> n \<le> length h \<Longrightarrow> ok_item n (h @ ext) x"
  by (cases x) (auto simp: ok_item_def is_dict_iff nth_append)

lemma build_new_entry_spec:
  assumes ok: "ok_value n h v"
  shows "\<exists>h'. build_new_entry nm v h = Inr (length h, h')
           \<and> length h < length h' \<and> take (length h) h' = h
           \<and> renamed_copy h h' nm v (length h)
           \<and> ok_value (length h') h' (length h)"
proof -
  from ok obtain kvs where v: "v < n" "n \<le> length h" and kvs: "h ! v = HDict kvs"
    by (auto simp: ok_value_def split: hobj.splits)
  define h1 where "h1 = h @ [HDict kvs]"
  have cp: "PyDict_Copy h v = Some (length h, h1)"
    using v kvs by (simp add: PyDict_Copy_Some h1_def)
  have gi: "PyDict_GetItem h1 v ''multi'' = map_of kvs ''multi''"
    using v kvs by (simp add: PyDict_GetItem_eq h1_def nth_append)
  define hr where "hr = h @ [HDict (dict_set kvs ''name'' nm)]"
  have ren: "PyDict_SetItem h1 (length h) ''name'' nm = Some hr"
    by (simp add: PyDict_SetItem_Some h1_def hr_def)
  have hr_facts: "length h < length hr" "take (length h) hr = h"
    "hr ! length h = HDict (dict_set kvs ''name'' nm)"
    by (simp_all add: hr_def)
  have mo: "map_of (dict_set kvs ''name'' nm) ''multi'' = map_of kvs ''multi''"
    by (simp add: map_of_dict_set)
  show ?thesis
  proof (cases "map_of kvs ''multi''")
    case None
    have run: "build_new_entry nm v h = Inr (length h, hr)"
      using cp gi ren None by (simp add: build_new_entry_def)
    have rc: "renamed_copy h hr nm v (length h)"
      using kvs None hr_facts by (simp add: renamed_copy_def)
    have okn: "ok_value (length hr) hr (length h)"
      using hr_facts None mo by (simp add: ok_value_def)
    show ?thesis using run hr_facts rc okn by blast
  next
    case (Some m)
    then have m: "m < n"
      using ok kvs by (auto simp: ok_value_def)
    then have m1: "heap_get h1 m = Some (h ! m)"
      using v by (simp add: heap_get_def h1_def nth_append)
    show ?thesis
    proof (cases "\<exists>items. h ! m = HList items")
      case False
      have run: "build_new_entry nm v h = Inr (length h, hr)"
        using cp gi ren Some m1 False
        by (cases "h ! m") (simp_all add: build_new_entry_def)
      have rc: "renamed_copy h hr nm v (length h)"
        using kvs Some hr_facts False
        by (cases "h ! m") (simp_all add: renamed_copy_def)
      have "hr ! m = h ! m"
        using m v by (simp add: hr_def nth_append)
      then have okn: "ok_value (length hr) hr (length h)"
        using hr_facts Some mo m v False
        by (cases "h ! m") (simp_all add: ok_value_def)
      show ?thesis using run hr_facts rc okn by blast
    next
      case True
      then obtain items where items: "h ! m = HList items" by blast
      have oki: "list_all (ok_item n h) items"
        using ok kvs Some items by (simp add: ok_value_def)
      define list where "list = Suc (length h)"
      define h2 where "h2 = h1 @ [HList (replicate (length items) None)]"
      have ln: "PyList_New h1 (length items) = (list, h2)"
        by (simp add: PyList_New_def heap_alloc_def h1_def h2_def list_def)
      have oki2: "list_all (ok_item n h2) items"
        using oki v ok_item_ext [of n h _ "[HDict kvs, HList (replicate (length items) None)]"]
        by (auto simp: list_all_iff h2_def h1_def)
      have pre: "n \<le> length h2" "n \<le> list" "list < length h2"
        "h2 ! list = HList (replicate (length items) None)"
        "0 + length items = length (replicate (length items) (None :: addr option))"
        using v by (simp_all add: h2_def h1_def list_def nth_append)
      obtain h3 ys where cm: "copy_multi nm list 0 items h2 = Inr h3"
          and len3: "length h2 \<le> length h3"
          and fr3: "\<forall>a < length h2. a \<noteq> list \<longrightarrow> h3 ! a = h2 ! a"
          and lst3: "h3 ! list = HList ys"
          and ren3: "list_all2 (renamed_entry h2 h3 nm) items ys"
        using copy_multi_spec [OF pre(1) oki2 pre(2,3,4,5), of nm] by auto
      have nv3: "h3 ! length h = HDict kvs"
        using fr3 by (simp add: h2_def h1_def list_def nth_append)
      define h4 where "h4 = h3[length h := HDict (dict_set kvs ''multi'' list)]"
      have lh: "length h < length h3"
        using len3 by (simp add: h2_def h1_def)
      have si: "PyDict_SetItem h3 (length h) ''multi'' list = Some h4"
        using nv3 lh by (simp add: PyDict_SetItem_Some h4_def)
      have run: "build_new_entry nm v h = Inr (length h, h4)"
        using cp gi Some m1 items ln cm si
        by (simp add: build_new_entry_def)
      have old4: "h4 ! a = h ! a" if "a < length h" for a
        using that fr3 by (simp add: h4_def h2_def h1_def list_def nth_append)
      have tk: "take (length h) h4 = h"
        using old4 lh by (intro nth_equalityI) (simp_all add: h4_def)
      have l4: "h4 ! list = HList ys" "list < length h4" "length h \<le> list"
        using lst3 len3 by (simp_all add: h4_def list_def h2_def h1_def)
      have nv4: "h4 ! length h = HDict (dict_set kvs ''multi'' list)"
        using lh by (simp add: h4_def)
      have ents: "renamed_entry h h4 nm x y \<and> ok_item (length h4) h4 y"
        if r: "renamed_entry h2 h3 nm x y" and o: "ok_item n h x" for x y
      proof -
        obtain e dup where x: "x = Some e" "e < n" and y: "y = Some dup"
          using r o by (cases x; cases y) (auto simp: ok_item_def renamed_entry_def)
        have e2: "h2 ! e = h ! e"
          using x v by (simp add: h2_def h1_def nth_append)
        have d: "length h2 \<le> dup" "dup < length h3"
          using r x y by (auto simp: renamed_entry_def)
        then have d4: "h4 ! dup = h3 ! dup" "length h \<le> dup" "dup < length h4"
          by (simp_all add: h4_def h2_def h1_def)
        show ?thesis
          using r x y e2 d4
          by (auto simp: renamed_entry_def ok_item_def is_dict_iff split: hobj.splits)
      qed
      have ren4: "list_all2 (renamed_entry h h4 nm) items ys"
        using ren3 oki ents by (auto simp: list_all2_conv_all_nth list_all_length)
      have ok4: "list_all (ok_item (length h4) h4) ys"
        using ren3 oki ents by (auto simp: list_all2_conv_all_nth list_all_length)
      have rc: "renamed_copy h h4 nm v (length h)"
        using kvs Some items nv4 l4 ren4 lh
        by (simp add: renamed_copy_def map_of_dict_set h4_def)
      have okn: "ok_value (length h4) h4 (length h)"
        using nv4 l4 ok4 lh by (simp add: ok_value_def map_of_dict_set h4_def)
      show ?thesis
        using run lh tk rc okn by (auto simp: h4_def)
    qed
  qed
qed

lemma ok_value_frame:
  assumes ok: "ok_value n h v" and vX: "v \<notin> X"
      and n': "n \<le> n'" "n' \<le> length h'" and len: "length h \<le> length h'"
      and fr: "\<forall>a < length h. a \<notin> X \<longrightarrow> h' ! a = h ! a"
      and dX: "\<forall>s \<in> X. is_dict h' s"
  shows "ok_value n' h' v"
proof -
  from ok obtain kvs where v: "v < n" "n \<le> length h" and kvs: "h ! v = HDict kvs"
    by (auto simp: ok_value_def split: hobj.splits)
  have kvs': "h' ! v = HDict kvs"
    using fr v vX kvs by simp
  have item: "ok_item n' h' x" if oi: "ok_item n h x" for x
  proof -
    obtain e where x: "x = Some e" "e < n" "is_dict h e"
      using oi by (cases x) (auto simp: ok_item_def)
    have "is_dict h' e"
    proof (cases "e \<in> X")
      case True
      then show ?thesis using dX by simp
    next
      case False
      then show ?thesis using x fr v len by (auto simp: is_dict_iff)
    qed
    then show ?thesis using x n' by (simp add: ok_item_def)
  qed
  show ?thesis
  proof (cases "map_of kvs ''multi''")
    case None
    then show ?thesis using kvs' v n' by (simp add: ok_value_def)
  next
    case (Some m)
    then have m: "m < n"
      using ok kvs by (auto simp: ok_value_def)
    have "list_all (ok_item n' h') items" if l: "h' ! m = HList items" for items
    proof -
      have "m \<notin> X"
        using dX l by (auto simp: is_dict_iff)
      then have "h ! m = HList items"
        using fr m v l by simp
      then have "list_all (ok_item n h) items"
        using ok kvs Some by (simp add: ok_value_def)
      then show ?thesis using item by (auto simp: list_all_iff)
    qed
    then show ?thesis
      using kvs' v n' Some m by (auto simp: ok_value_def split: hobj.splits)
  qed
qed

lemma renamed_entry_frame:
  assumes r: "renamed_entry hA hB nm x y" and o: "ok_item n hA x"
      and low: "\<forall>a < n. hA ! a = h0 ! a" and l0: "length h0 \<le> length hA"
      and lF: "length hB \<le> length hF"
      and new: "\<forall>a. length hA \<le> a \<and> a < length hB \<longrightarrow> hF ! a = hB ! a"
  shows "renamed_entry h0 hF nm x y"
proof -
  obtain e dup where x: "x = Some e" "e < n" and y: "y = Some dup"
    using r o by (cases x; cases y) (auto simp: ok_item_def renamed_entry_def)
  have d: "length hA \<le> dup" "dup < length hB"
    using r x y by (auto simp: renamed_entry_def)
  show ?thesis
    using r x y d low l0 lF new
    by (auto simp: renamed_entry_def split: hobj.splits)
qed

lemma renamed_copy_frame:
  assumes rc: "renamed_copy hA hB nm v nv" and ok: "ok_value n hA v"
      and low: "\<forall>a < n. hA ! a = h0 ! a" and l0: "length h0 \<le> length hA"
      and lF: "length hB \<le> length hF"
      and new: "\<forall>a. length hA \<le> a \<and> a < length hB \<longrightarrow> hF ! a = hB ! a"
  shows "renamed_copy h0 hF nm v nv"
proof -
  from ok obtain kvs where v: "v < n" "n \<le> length hA" and kvs: "hA ! v = HDict kvs"
    by (auto simp: ok_value_def split: hobj.splits)
  have kvs0: "h0 ! v = HDict kvs"
    using low v kvs by simp
  have nv: "length hA \<le> nv" "nv < length hB"
    using rc by (auto simp: renamed_copy_def)
  then have nvF: "hF ! nv = hB ! nv" "length h0 \<le> nv" "nv < length hF"
    using new l0 lF by auto
  show ?thesis
  proof (cases "map_of kvs ''multi''")
    case None
    then show ?thesis
      using rc kvs kvs0 nvF by (simp add: renamed_copy_def)
  next
    case (Some m)
    then have m: "m < n"
      using ok kvs by (auto simp: ok_value_def)
    then have m0: "h0 ! m = hA ! m"
      using low by simp
    show ?thesis
    proof (cases "\<exists>items. hA ! m = HList items")
      case False
      then show ?thesis
        using rc kvs kvs0 nvF Some m0
        by (cases "hA ! m") (simp_all add: renamed_copy_def)
    next
      case True
      then obtain items where items: "hA ! m = HList items" by blast
      have oki: "list_all (ok_item n hA) items"
        using ok kvs Some items by (simp add: ok_value_def)
      from rc have B: "case hB ! nv of
          HDict kvs' \<Rightarrow> (case map_of kvs' ''multi'' of
              None \<Rightarrow> False
            | Some l \<Rightarrow> length hA \<le> l \<and> l < length hB
                \<and> kvs' = dict_set kvs ''multi'' l
                \<and> (case hB ! l of
                      HList items' \<Rightarrow> list_all2 (renamed_entry hA hB nm) items items'
                    | _ \<Rightarrow> False))
        | _ \<Rightarrow> False"
        using kvs Some items by (simp add: renamed_copy_def)
      then obtain kvs' where k': "hB ! nv = HDict kvs'"
        by (cases "hB ! nv") auto
      with B obtain l where l: "length hA \<le> l" "l < length hB"
          and k'': "kvs' = dict_set kvs ''multi'' l"
          and C: "case hB ! l of
                      HList items' \<Rightarrow> list_all2 (renamed_entry hA hB nm) items items'
                    | _ \<Rightarrow> False"
        by (cases "map_of kvs' ''multi''") auto
      then obtain items' where lB: "hB ! l = HList items'"
          and ren: "list_all2 (renamed_entry hA hB nm) items items'"
        by (cases "hB ! l") auto
      have nvB: "hB ! nv = HDict (dict_set kvs ''multi'' l)"
        using k' k'' by simp
      have lF': "hF ! l = HList items'" "length h0 \<le> l" "l < length hF"
        using l new l0 lF lB by auto
      have ren0: "list_all2 (renamed_entry h0 hF nm) items items'"
        using ren oki renamed_entry_frame [OF _ _ low l0 lF new]
        by (auto simp: list_all2_conv_all_nth list_all_length)
      show ?thesis
        using kvs0 Some m0 items nvF nvB lF' ren0
        by (simp add: renamed_copy_def map_of_dict_set)
    qed
  qed
qed

lemma variant_entry_frame:
  assumes ve: "variant_entry snake hA hF src kv'"
      and oks: "\<forall>(k, v) \<in> set src. ok_value n hA v"
      and low: "\<forall>a < n. hA ! a = h0 ! a" and l0: "length h0 \<le> length hA"
      and sub: "set src \<subseteq> set src'"
  shows "variant_entry snake h0 hF src' kv'"
proof -
  obtain k' nv where kv': "kv' = (k', nv)" by (cases kv')
  from ve kv' obtain k v nm where
      nv: "length hA \<le> nv" "nv < length hF" "ok_value (length hF) hF nv"
      and kv: "(k, v) \<in> set src" "k' = snake k"
      and nm: "length hA \<le> nm" "nm < length hF" "hF ! nm = HStr (snake k)"
      and rc: "renamed_copy hA hF nm v nv"
    by (auto simp: variant_entry_def)
  have okv: "ok_value n hA v"
    using oks kv by auto
  have "renamed_copy h0 hF nm v nv"
    using renamed_copy_frame [OF rc okv low l0] by simp
  then have inner: "\<exists>nm \<in> {length h0..<length hF}. hF ! nm = HStr (snake k)
      \<and> renamed_copy h0 hF nm v nv"
    using nm l0 by (intro bexI [of _ nm]) auto
  have src: "(k, v) \<in> set src'"
    using kv sub by auto
  have "\<exists>(k, v) \<in> set src'. k' = snake k
      \<and> (\<exists>nm \<in> {length h0..<length hF}. hF ! nm = HStr (snake k)
            \<and> renamed_copy h0 hF nm v nv)"
    using inner kv(2) by (intro bexI [OF _ src]) simp
  then show ?thesis
    using kv' nv l0 by (simp add: variant_entry_def)
qed

lemma snake_loop_spec:
  assumes "n \<le> sd" and "sd < length h" and "h ! sd = HDict skvs"
      and "\<forall>(k, v) \<in> set rest. ok_value n h v"
  shows "\<exists>h' skvs'. snake_loop snake sd rest h = Inr h' \<and> length h \<le> length h'
     \<and> (\<forall>a < length h. a \<noteq> sd \<longrightarrow> h' ! a = h ! a) \<and> h' ! sd = HDict skvs'
     \<and> fst ` set skvs' = fst ` set skvs \<union> snake ` fst ` set rest
     \<and> (\<forall>kv' \<in> set skvs'. kv' \<in> set skvs \<or> variant_entry snake h h' rest kv')"
  using assms
proof (induction rest arbitrary: h skvs)
  case Nil
  then show ?case by simp
next
  case (Cons kv rest)
  obtain key "value" where kv: "kv = (key, value)" by (cases kv)
  have okv: "ok_value n h value"
    using Cons.prems(4) kv by simp
  then have n: "n \<le> length h"
    by (simp add: ok_value_def)
  define h1 where "h1 = h @ [HStr (snake key)]"
  have ok1: "ok_value n h1 value"
    using ok_value_frame [OF okv, of "{}" n h1] n by (simp add: h1_def nth_append)
  obtain h2 where bn: "build_new_entry (length h) value h1 = Inr (length h1, h2)"
      and len2: "length h1 < length h2" and tk2: "take (length h1) h2 = h1"
      and rc2: "renamed_copy h1 h2 (length h) value (length h1)"
      and okn2: "ok_value (length h2) h2 (length h1)"
    using build_new_entry_spec [OF ok1, of "length h"] by blast
  have old2: "h2 ! a = h1 ! a" if "a < length h1" for a
    using that tk2 by (metis nth_take)
  have sd2: "sd < length h2" "h2 ! sd = HDict skvs"
    using Cons.prems(2,3) len2 old2 [of sd] by (simp_all add: h1_def nth_append)
  define skvs3 where "skvs3 = dict_set skvs (snake key) (length h1)"
  define h3 where "h3 = h2[sd := HDict skvs3]"
  have si: "PyDict_SetItem h2 sd (snake key) (length h1) = Some h3"
    using sd2 by (simp add: PyDict_SetItem_Some h3_def skvs3_def)
  have len3: "length h3 = length h2"
    by (simp add: h3_def)
  have old3: "h3 ! a = h ! a" if "a < length h" "a \<noteq> sd" for a
    using that old2 [of a] by (simp add: h3_def h1_def nth_append)
  have new3: "h3 ! a = h2 ! a" if "a \<noteq> sd" for a
    using that by (simp add: h3_def)
  have sd3: "sd < length h3" "h3 ! sd = HDict skvs3"
    using sd2 by (simp_all add: h3_def)
  have oks3: "\<forall>(k, v) \<in> set rest. ok_value n h3 v"
  proof -
    have "ok_value n h3 v" if "ok_value n h v" for v
    proof (rule ok_value_frame [OF that, of "{sd}"])
      show "v \<notin> {sd}"
        using that Cons.prems(1) by (auto simp: ok_value_def)
      show "n \<le> length h3"
        using n len2 by (simp add: len3 h1_def)
      show "length h \<le> length h3"
        using len2 by (simp add: len3 h1_def)
      show "\<forall>a<length h. a \<notin> {sd} \<longrightarrow> h3 ! a = h ! a"
        using old3 by simp
      show "\<forall>s\<in>{sd}. is_dict h3 s"
        using sd3 by (simp add: is_dict_iff)
    qed simp
    then show ?thesis using Cons.prems(4) by auto
  qed
  obtain h' skvs' where loop: "snake_loop snake sd rest h3 = Inr h'"
      and len': "length h3 \<le> length h'"
      and fr': "\<forall>a < length h3. a \<noteq> sd \<longrightarrow> h' ! a = h3 ! a"
      and sd': "h' ! sd = HDict skvs'"
      and keys': "fst ` set skvs' = fst ` set skvs3 \<union> snake ` fst ` set rest"
      and ents': "\<forall>kv' \<in> set skvs'. kv' \<in> set skvs3 \<or> variant_entry snake h3 h' rest kv'"
    using Cons.IH [OF Cons.prems(1) sd3 oks3] by metis
  have run: "snake_loop snake sd (kv # rest) h = Inr h'"
    using kv bn si loop by (simp add: heap_alloc_def h1_def)
  have lenh: "length h \<le> length h'"
    using len' len2 by (simp add: len3 h1_def)
  have fr: "\<forall>a < length h. a \<noteq> sd \<longrightarrow> h' ! a = h ! a"
    using fr' old3 len2 by (simp add: len3 h1_def)
  have keys: "fst ` set skvs' = fst ` set skvs \<union> snake ` fst ` set (kv # rest)"
    using keys' kv by (auto simp: skvs3_def keys_dict_set)
  have sdlt: "sd < length h1"
    using Cons.prems(2) by (simp add: h1_def)
  have head: "variant_entry snake h h' (kv # rest) (snake key, length h1)"
  proof -
    have a: "length h \<le> length h1" "length h1 < length h'"
      using len2 len' by (simp_all add: len3 h1_def)
    have b: "ok_value (length h') h' (length h1)"
    proof (rule ok_value_frame [OF okn2, of "{sd}"])
      show "length h1 \<notin> {sd}" using sdlt by simp
      show "length h2 \<le> length h'" using len' by (simp add: len3)
      show "length h' \<le> length h'" by simp
      show "length h2 \<le> length h'" using len' by (simp add: len3)
      show "\<forall>a<length h2. a \<notin> {sd} \<longrightarrow> h' ! a = h2 ! a"
        using fr' new3 by (simp add: len3)
      show "\<forall>s\<in>{sd}. is_dict h' s"
        using sd' sd3 len' by (simp add: is_dict_iff)
    qed
    have nmF: "h' ! length h = HStr (snake key)"
    proof -
      have "length h \<noteq> sd" using Cons.prems(2) by simp
      moreover have "length h < length h3" using len2 by (simp add: len3 h1_def)
      ultimately have "h' ! length h = h2 ! length h"
        using fr' new3 by simp
      also have "\<dots> = h1 ! length h"
        using old2 [of "length h"] by (simp add: h1_def)
      finally show ?thesis by (simp add: h1_def)
    qed
    have c: "renamed_copy h h' (length h) value (length h1)"
    proof (rule renamed_copy_frame [OF rc2 ok1])
      show "\<forall>a<n. h1 ! a = h ! a"
        using n by (simp add: h1_def nth_append)
      show "length h \<le> length h1" by (simp add: h1_def)
      show "length h2 \<le> length h'" using len' by (simp add: len3)
      show "\<forall>a. length h1 \<le> a \<and> a < length h2 \<longrightarrow> h' ! a = h2 ! a"
        using fr' new3 sdlt by (simp add: len3)
    qed
    have d: "length h \<in> {length h..<length h'}"
      using a by simp
    have inner: "\<exists>nm \<in> {length h..<length h'}. h' ! nm = HStr (snake key)
        \<and> renamed_copy h h' nm value (length h1)"
      using c nmF by (intro bexI [OF _ d]) simp
    have src: "(key, value) \<in> set (kv # rest)"
      using kv by simp
    have "\<exists>(k, v) \<in> set (kv # rest). snake key = snake k
        \<and> (\<exists>nm \<in> {length h..<length h'}. h' ! nm = HStr (snake k)
              \<and> renamed_copy h h' nm v (length h1))"
      using inner by (intro bexI [OF _ src]) simp
    then show ?thesis
      using a b by (simp add: variant_entry_def)
  qed
  have tail: "variant_entry snake h h' (kv # rest) kv'" if "variant_entry snake h3 h' rest kv'" for kv'
  proof (rule variant_entry_frame [OF that oks3])
    show "\<forall>a<n. h3 ! a = h ! a"
      using old3 n Cons.prems(1) by simp
    show "length h \<le> length h3"
      using len2 by (simp add: len3 h1_def)
    show "set rest \<subseteq> set (kv # rest)" by auto
  qed
  have ents: "\<forall>kv' \<in> set skvs'. kv' \<in> set skvs \<or> variant_entry snake h h' (kv # rest) kv'"
  proof
    fix kv' assume "kv' \<in> set skvs'"
    then consider "kv' \<in> set skvs3" | "variant_entry snake h3 h' rest kv'"
      using ents' by auto
    then show "kv' \<in> set skvs \<or> variant_entry snake h h' (kv # rest) kv'"
    proof cases
      case 1
      then have "kv' = (snake key, length h1) \<or> kv' \<in> set skvs"
        using set_dict_set [of "fst kv'" "snd kv'" skvs "snake key" "length h1"]
        by (simp add: skvs3_def)
      then show ?thesis using head by auto
    next
      case 2
      then show ?thesis using tail by simp
    qed
  qed
  show ?case
    by (intro exI [of _ h'] exI [of _ skvs'] conjI run lenh fr sd' keys ents)
qed

lemma merge_keep_spec:
  "\<exists>new. merge_keep a b = a @ new \<and> set new \<subseteq> set b
     \<and> (\<forall>kv \<in> set new. fst kv \<notin> fst ` set a)
     \<and> fst ` set (a @ new) = fst ` set a \<union> fst ` set b"
proof (induction b arbitrary: a)
  case Nil
  then show ?case by simp
next
  case (Cons kv b)
  obtain k v where kv: "kv = (k, v)" by (cases kv)
  show ?case
  proof (cases "map_of a k = None")
    case True
    then have nk: "k \<notin> fst ` set a"
      by (simp add: map_of_eq_None_iff)
    obtain new where n: "merge_keep (a @ [(k, v)]) b = (a @ [(k, v)]) @ new" "set new \<subseteq> set b"
        "\<forall>kv \<in> set new. fst kv \<notin> fst ` set (a @ [(k, v)])"
        "fst ` set ((a @ [(k, v)]) @ new) = fst ` set (a @ [(k, v)]) \<union> fst ` set b"
      using Cons.IH [of "a @ [(k, v)]"] by metis
    have "merge_keep a (kv # b) = a @ ((k, v) # new)"
      using kv True n(1) by simp
    moreover have "set ((k, v) # new) \<subseteq> set (kv # b)"
      using kv n(2) by auto
    moreover have "\<forall>x \<in> set ((k, v) # new). fst x \<notin> fst ` set a"
      using nk n(3) by auto
    moreover have "fst ` set (a @ ((k, v) # new)) = fst ` set a \<union> fst ` set (kv # b)"
      using n(4) kv by auto
    ultimately show ?thesis by metis
  next
    case False
    then have ik: "k \<in> fst ` set a"
      by (simp add: map_of_eq_None_iff)
    obtain new where n: "merge_keep a b = a @ new" "set new \<subseteq> set b"
        "\<forall>kv \<in> set new. fst kv \<notin> fst ` set a"
        "fst ` set (a @ new) = fst ` set a \<union> fst ` set b"
      using Cons.IH [of a] by metis
    have "merge_keep a (kv # b) = a @ new"
      using kv False n(1) by auto
    moreover have "set new \<subseteq> set (kv # b)"
      using n(2) by auto
    moreover have "fst ` set (a @ new) = fst ` set a \<union> fst ` set (kv # b)"
      using n(4) kv ik by auto
    ultimately show ?thesis using n(3) by metis
  qed
qed

lemma ok_item_frame:
  assumes oi: "ok_item n h x" and n: "n \<le> length h" "n \<le> n'"
      and fr: "\<forall>a < length h. a \<notin> X \<longrightarrow> h' ! a = h ! a" and len: "length h \<le> length h'"
      and dX: "\<forall>s \<in> X. is_dict h' s"
  shows "ok_item n' h' x"
proof -
  obtain e where x: "x = Some e" "e < n" "is_dict h e"
    using oi by (cases x) (auto simp: ok_item_def)
  have "is_dict h' e"
  proof (cases "e \<in> X")
    case True
    then show ?thesis using dX by simp
  next
    case False
    then show ?thesis using x fr n len by (auto simp: is_dict_iff)
  qed
  then show ?thesis using x n by (simp add: ok_item_def)
qed

text \<open>The dictionary itself as one of its values: it gains entries whose values are dictionaries.\<close>

lemma ok_value_grown:
  assumes ok: "ok_value n h d" and hd: "h ! d = HDict kvs"
      and fr: "\<forall>a < length h. a \<noteq> d \<longrightarrow> h' ! a = h ! a" and len: "length h \<le> length h'"
      and hd': "h' ! d = HDict (kvs @ new)"
      and newv: "\<forall>kv \<in> set new. snd kv < length h' \<and> is_dict h' (snd kv)"
  shows "ok_value (length h') h' d"
proof -
  from ok have d: "d < n" "n \<le> length h"
    by (auto simp: ok_value_def)
  have dd: "is_dict h' d"
    using hd' d len by (simp add: is_dict_iff)
  have "m < length h' \<and> (\<forall>items. h' ! m = HList items \<longrightarrow> list_all (ok_item (length h') h') items)"
    if mo: "map_of (kvs @ new) ''multi'' = Some m" for m
  proof (cases "map_of kvs ''multi''")
    case None
    then have "map_of new ''multi'' = Some m"
      using mo by (simp add: map_add_def)
    then have "(''multi'', m) \<in> set new"
      by (rule map_of_SomeD)
    then have "m < length h'" "is_dict h' m"
      using newv by auto
    then show ?thesis by (auto simp: is_dict_iff)
  next
    case (Some m0)
    then have mm: "m0 = m"
      using mo by (simp add: map_add_def)
    have m: "m < n"
      using ok hd Some mm by (auto simp: ok_value_def)
    have "list_all (ok_item (length h') h') items" if l: "h' ! m = HList items" for items
    proof -
      have "m \<noteq> d" using l hd' by auto
      then have "h ! m = HList items"
        using fr m d l by simp
      then have "list_all (ok_item n h) items"
        using ok hd Some mm by (simp add: ok_value_def)
      then show ?thesis
        using ok_item_frame [of n h _ "length h'" "{d}" h'] d fr len dd
        by (auto simp: list_all_iff)
    qed
    then show ?thesis using m d len by auto
  qed
  then show ?thesis
    using d len hd' by (auto simp: ok_value_def split: option.splits hobj.splits)
qed

lemma ok_value_is_dict: "ok_value n h v \<Longrightarrow> v < n \<and> n \<le> length h \<and> is_dict h v"
  by (auto simp: ok_value_def is_dict_iff split: hobj.splits)

lemma variant_entry_upd:
  assumes ve: "variant_entry snake h h2 src kv'"
      and oks: "\<forall>(k, v) \<in> set src. ok_value (length h) h v"
      and d: "d < length h" and len: "length h \<le> length h2"
  shows "variant_entry snake h (h2[d := HDict X]) src kv'"
proof -
  let ?h3 = "h2[d := HDict X]"
  obtain k' nv where kv': "kv' = (k', nv)" by (cases kv')
  from ve kv' obtain k v nm where
      nv: "length h \<le> nv" "nv < length h2" "ok_value (length h2) h2 nv"
      and kv: "(k, v) \<in> set src" "k' = snake k"
      and nm: "length h \<le> nm" "nm < length h2" "h2 ! nm = HStr (snake k)"
      and rc: "renamed_copy h h2 nm v nv"
    by (auto simp: variant_entry_def)
  have okv: "ok_value (length h) h v"
    using oks kv by auto
  have ok3: "ok_value (length ?h3) ?h3 nv"
  proof (rule ok_value_frame [OF nv(3), of "{d}"])
    show "nv \<notin> {d}" using nv d by simp
    show "\<forall>s\<in>{d}. is_dict ?h3 s" using d len by (simp add: is_dict_iff)
  qed simp_all
  have rc3: "renamed_copy h ?h3 nm v nv"
  proof (rule renamed_copy_frame [OF rc okv])
    show "\<forall>a. length h \<le> a \<and> a < length h2 \<longrightarrow> ?h3 ! a = h2 ! a"
      using d by simp
  qed simp_all
  have nm3: "?h3 ! nm = HStr (snake k)"
    using nm d by simp
  have inner: "\<exists>nm \<in> {length h..<length ?h3}. ?h3 ! nm = HStr (snake k)
      \<and> renamed_copy h ?h3 nm v nv"
    using nm nm3 rc3 by (intro bexI [of _ nm]) auto
  have "\<exists>(k, v) \<in> set src. k' = snake k
      \<and> (\<exists>nm \<in> {length h..<length ?h3}. ?h3 ! nm = HStr (snake k)
            \<and> renamed_copy h ?h3 nm v nv)"
    using inner kv(2) by (intro bexI [OF _ kv(1)]) simp
  then show ?thesis
    using kv' nv ok3 by (simp add: variant_entry_def)
qed

lemma insert_spec:
  assumes pd: "props_dict h d"
  shows "\<exists>h1 new. insert_snake_case_variants snake d h = Inr h1
     \<and> length h < length h1
     \<and> (\<forall>a < length h. a \<noteq> d \<longrightarrow> h1 ! a = h ! a)
     \<and> h1 ! d = HDict (dict_items h d @ new)
     \<and> fst ` set (dict_items h d @ new)
          = fst ` set (dict_items h d) \<union> snake ` fst ` set (dict_items h d)
     \<and> (\<forall>kv' \<in> set new. fst kv' \<notin> fst ` set (dict_items h d)
            \<and> variant_entry snake h h1 (dict_items h d) kv')
     \<and> props_dict h1 d"
proof -
  from pd obtain kvs where d: "d < length h" and hd: "h ! d = HDict kvs"
    by (auto simp: props_dict_def is_dict_iff)
  have items: "dict_items h d = kvs"
    using d hd by (simp add: dict_items_def heap_get_def)
  have oks: "\<forall>(k, v) \<in> set kvs. ok_value (length h) h v"
    using pd items by (simp add: props_dict_def list_all_iff)
  define h0 where "h0 = h @ [HDict []]"
  have new0: "PyDict_New h = (length h, h0)"
    by (simp add: PyDict_New_def heap_alloc_def h0_def)
  have items0: "dict_items h0 d = kvs"
    using d hd by (simp add: dict_items_def heap_get_def h0_def nth_append)
  have oks0: "\<forall>(k, v) \<in> set kvs. ok_value (length h) h0 v"
  proof -
    have "ok_value (length h) h0 v" if "ok_value (length h) h v" for v
      using ok_value_frame [OF that, of "{}" "length h" h0]
      by (simp add: h0_def nth_append)
    then show ?thesis using oks by auto
  qed
  have sd0: "length h < length h0" "h0 ! length h = HDict []"
    by (simp_all add: h0_def)
  have "\<exists>h2 skvs. snake_loop snake (length h) kvs h0 = Inr h2
      \<and> length h0 \<le> length h2
      \<and> (\<forall>a < length h0. a \<noteq> length h \<longrightarrow> h2 ! a = h0 ! a)
      \<and> h2 ! length h = HDict skvs
      \<and> fst ` set skvs = snake ` fst ` set kvs
      \<and> (\<forall>kv' \<in> set skvs. variant_entry snake h0 h2 kvs kv')"
    using snake_loop_spec [OF order_refl sd0 oks0, of snake] by simp
  then obtain h2 where "\<exists>skvs. snake_loop snake (length h) kvs h0 = Inr h2
      \<and> length h0 \<le> length h2
      \<and> (\<forall>a < length h0. a \<noteq> length h \<longrightarrow> h2 ! a = h0 ! a)
      \<and> h2 ! length h = HDict skvs
      \<and> fst ` set skvs = snake ` fst ` set kvs
      \<and> (\<forall>kv' \<in> set skvs. variant_entry snake h0 h2 kvs kv')" ..
  then obtain skvs where c: "snake_loop snake (length h) kvs h0 = Inr h2
      \<and> length h0 \<le> length h2
      \<and> (\<forall>a < length h0. a \<noteq> length h \<longrightarrow> h2 ! a = h0 ! a)
      \<and> h2 ! length h = HDict skvs
      \<and> fst ` set skvs = snake ` fst ` set kvs
      \<and> (\<forall>kv' \<in> set skvs. variant_entry snake h0 h2 kvs kv')" ..
  note loop = c [THEN conjunct1]
    and len2 = c [THEN conjunct2, THEN conjunct1]
    and fr2 = c [THEN conjunct2, THEN conjunct2, THEN conjunct1]
    and sd2 = c [THEN conjunct2, THEN conjunct2, THEN conjunct2, THEN conjunct1]
    and keys2 = c [THEN conjunct2, THEN conjunct2, THEN conjunct2, THEN conjunct2, THEN conjunct1]
    and ents2 = c [THEN conjunct2, THEN conjunct2, THEN conjunct2, THEN conjunct2, THEN conjunct2]
  have lh2: "length h < length h2"
    using len2 by (simp add: h0_def)
  have d2: "h2 ! d = HDict kvs"
    using fr2 d hd by (simp add: h0_def nth_append)
  obtain new where mk: "merge_keep kvs skvs = kvs @ new" and sub: "set new \<subseteq> set skvs"
      and fresh: "\<forall>kv \<in> set new. fst kv \<notin> fst ` set kvs"
      and keys: "fst ` set (kvs @ new) = fst ` set kvs \<union> fst ` set skvs"
    using merge_keep_spec [of kvs skvs] by metis
  define h3 where "h3 = h2[d := HDict (kvs @ new)]"
  have mg: "PyDict_Merge_keep h2 d (length h) = Some h3"
    using d lh2 d2 sd2 mk by (simp add: PyDict_Merge_keep_def heap_get_def h3_def)
  have run: "insert_snake_case_variants snake d h = Inr h3"
    using new0 items0 loop mg by (simp add: insert_snake_case_variants_def)
  have len3: "length h < length h3"
    using lh2 by (simp add: h3_def)
  have fr3: "\<forall>a < length h. a \<noteq> d \<longrightarrow> h3 ! a = h ! a"
    using fr2 by (simp add: h3_def h0_def nth_append)
  have hd3: "h3 ! d = HDict (kvs @ new)"
    using d lh2 by (simp add: h3_def)
  have keys3: "fst ` set (kvs @ new) = fst ` set kvs \<union> snake ` fst ` set kvs"
    using keys keys2 by simp
  have var: "variant_entry snake h h3 kvs kv'" if "kv' \<in> set new" for kv'
  proof -
    have "variant_entry snake h0 h2 kvs kv'"
      using that sub ents2 by auto
    then have "variant_entry snake h h2 kvs kv'"
      by (rule variant_entry_frame [OF _ oks0]) (simp_all add: h0_def nth_append)
    then show ?thesis
      unfolding h3_def using oks d lh2 by (intro variant_entry_upd) simp_all
  qed
  have newd: "\<forall>kv \<in> set new. snd kv < length h3 \<and> is_dict h3 (snd kv)"
  proof
    fix kv assume "kv \<in> set new"
    then have "variant_entry snake h h3 kvs kv" by (rule var)
    then have "ok_value (length h3) h3 (snd kv)"
      by (cases kv) (simp add: variant_entry_def)
    then show "snd kv < length h3 \<and> is_dict h3 (snd kv)"
      using ok_value_is_dict by blast
  qed
  have dd3: "is_dict h3 d"
    using hd3 d len3 by (simp add: is_dict_iff)
  have old_ok: "ok_value (length h3) h3 v" if "ok_value (length h) h v" for v
  proof (cases "v = d")
    case True
    show ?thesis
      unfolding True
      using that hd fr3 len3 hd3 newd
      by (intro ok_value_grown [of "length h" h d kvs h3 new]) (simp_all add: True)
  next
    case False
    show ?thesis
    proof (rule ok_value_frame [OF that, of "{d}"])
      show "v \<notin> {d}" using False by simp
      show "\<forall>a<length h. a \<notin> {d} \<longrightarrow> h3 ! a = h ! a" using fr3 by simp
      show "\<forall>s\<in>{d}. is_dict h3 s" using dd3 by simp
    qed (use len3 in simp_all)
  qed
  have items3: "dict_items h3 d = kvs @ new"
    using hd3 d len3 by (simp add: dict_items_def heap_get_def)
  have pd3: "props_dict h3 d"
  proof -
    have "ok_value (length h3) h3 v" if "(k, v) \<in> set (kvs @ new)" for k v
    proof (cases "(k, v) \<in> set kvs")
      case True
      then show ?thesis using oks old_ok by auto
    next
      case False
      then have "(k, v) \<in> set new" using that by simp
      then have "variant_entry snake h h3 kvs (k, v)" by (rule var)
      then show ?thesis by (simp add: variant_entry_def)
    qed
    then show ?thesis
      using dd3 items3 by (auto simp: props_dict_def list_all_iff)
  qed
  show ?thesis
    unfolding items
    using fresh var
    by (intro exI [of _ h3] exI [of _ new] conjI run len3 fr3 hd3 keys3 pd3) auto
qed

lemma dict_items_eq: "d < length h \<Longrightarrow> h ! d = HDict kvs \<Longrightarrow> dict_items h d = kvs"
  by (simp add: dict_items_def heap_get_def)

text \<open>
  C7. For a name transform that is idempotent, as the specification says of it, and a
  well-formed PropsDict: \<open>insert_snake_case_variants\<close> succeeds; a second run on the
  result succeeds as well and changes no object of the store that the first run left,
  the PropsDict included, so the mapping has the same keys and the same entries as
  after the first run; and the first run keeps every entry of the original PropsDict
  in place and only appends entries under keys that the original did not have.
\<close>

theorem insert_snake_case_variants_fixed_point:
  assumes idem: "\<And>k. snake (snake k) = snake k" and pd: "props_dict h d"
  shows "\<exists>h1 h2 new. insert_snake_case_variants snake d h = Inr h1
      \<and> insert_snake_case_variants snake d h1 = Inr h2
      \<and> take (length h1) h2 = h1
      \<and> dict_items h2 d = dict_items h1 d
      \<and> dict_items h1 d = dict_items h d @ new
      \<and> (\<forall>kv \<in> set new. fst kv \<notin> fst ` set (dict_items h d))"
proof -
  let ?K = "fst ` set (dict_items h d)"
  from insert_spec [OF pd, of snake]
  obtain h1 where "\<exists>new. insert_snake_case_variants snake d h = Inr h1
     \<and> length h < length h1
     \<and> (\<forall>a < length h. a \<noteq> d \<longrightarrow> h1 ! a = h ! a)
     \<and> h1 ! d = HDict (dict_items h d @ new)
     \<and> fst ` set (dict_items h d @ new)
          = fst ` set (dict_items h d) \<union> snake ` fst ` set (dict_items h d)
     \<and> (\<forall>kv' \<in> set new. fst kv' \<notin> fst ` set (dict_items h d)
            \<and> variant_entry snake h h1 (dict_items h d) kv')
     \<and> props_dict h1 d" ..
  then obtain new where c1: "insert_snake_case_variants snake d h = Inr h1
     \<and> length h < length h1
     \<and> (\<forall>a < length h. a \<noteq> d \<longrightarrow> h1 ! a = h ! a)
     \<and> h1 ! d = HDict (dict_items h d @ new)
     \<and> fst ` set (dict_items h d @ new)
          = fst ` set (dict_items h d) \<union> snake ` fst ` set (dict_items h d)
     \<and> (\<forall>kv' \<in> set new. fst kv' \<notin> fst ` set (dict_items h d)
            \<and> variant_entry snake h h1 (dict_items h d) kv')
     \<and> props_dict h1 d" ..
  note run1 = c1 [THEN conjunct1]
    and len1 = c1 [THEN conjunct2, THEN conjunct1]
    and fr1 = c1 [THEN conjunct2, THEN conjunct2, THEN conjunct1]
    and hd1 = c1 [THEN conjunct2, THEN conjunct2, THEN conjunct2, THEN conjunct1]
    and keys1 = c1 [THEN conjunct2, THEN conjunct2, THEN conjunct2, THEN conjunct2, THEN conjunct1]
    and fv1 = c1 [THEN conjunct2, THEN conjunct2, THEN conjunct2, THEN conjunct2, THEN conjunct2, THEN conjunct1]
    and pd1 = c1 [THEN conjunct2, THEN conjunct2, THEN conjunct2, THEN conjunct2, THEN conjunct2, THEN conjunct2]
  have d: "d < length h"
    using pd by (simp add: props_dict_def is_dict_iff)
  then have d1: "d < length h1"
    using len1 by simp
  have items1: "dict_items h1 d = dict_items h d @ new"
    using d1 hd1 by (rule dict_items_eq)
  let ?K1 = "fst ` set (dict_items h1 d)"
  from insert_spec [OF pd1, of snake]
  obtain h2 where "\<exists>new2. insert_snake_case_variants snake d h1 = Inr h2
     \<and> length h1 < length h2
     \<and> (\<forall>a < length h1. a \<noteq> d \<longrightarrow> h2 ! a = h1 ! a)
     \<and> h2 ! d = HDict (dict_items h1 d @ new2)
     \<and> fst ` set (dict_items h1 d @ new2)
          = fst ` set (dict_items h1 d) \<union> snake ` fst ` set (dict_items h1 d)
     \<and> (\<forall>kv' \<in> set new2. fst kv' \<notin> fst ` set (dict_items h1 d)
            \<and> variant_entry snake h1 h2 (dict_items h1 d) kv')
     \<and> props_dict h2 d" ..
  then obtain new2 where c2: "insert_snake_case_variants snake d h1 = Inr h2
     \<and> length h1 < length h2
     \<and> (\<forall>a < length h1. a \<noteq> d \<longrightarrow> h2 ! a = h1 ! a)
     \<and> h2 ! d = HDict (dict_items h1 d @ new2)
     \<and> fst ` set (dict_items h1 d @ new2)
          = fst ` set (dict_items h1 d) \<union> snake ` fst ` set (dict_items h1 d)
     \<and> (\<forall>kv' \<in> set new2. fst kv' \<notin> fst ` set (dict_items h1 d)
            \<and> variant_entry snake h1 h2 (dict_items h1 d) kv')
     \<and> props_dict h2 d" ..
  note run2 = c2 [THEN conjunct1]
    and len2 = c2 [THEN conjunct2, THEN conjunct1]
    and fr2 = c2 [THEN conjunct2, THEN conjunct2, THEN conjunct1]
    and hd2 = c2 [THEN conjunct2, THEN conjunct2, THEN conjunct2, THEN conjunct1]
    and keys2 = c2 [THEN conjunct2, THEN conjunct2, THEN conjunct2, THEN conjunct2, THEN conjunct1]
    and fv2 = c2 [THEN conjunct2, THEN conjunct2, THEN conjunct2, THEN conjunct2, THEN conjunct2, THEN conjunct1]
    and pd2 = c2 [THEN conjunct2, THEN conjunct2, THEN conjunct2, THEN conjunct2, THEN conjunct2, THEN conjunct2]
  have K1: "?K1 = ?K \<union> snake ` ?K"
    using keys1 by (simp add: items1)
  have step: "snake x \<in> ?K \<union> snake ` ?K" if x: "x \<in> ?K \<union> snake ` ?K" for x
  proof -
    from x consider (orig) "x \<in> ?K" | (var) y where "y \<in> ?K" "x = snake y"
      by blast
    then show ?thesis
    proof cases
      case orig
      then show ?thesis by simp
    next
      case var
      then have "snake x = snake y" by (simp add: idem)
      then show ?thesis using var(1) by simp
    qed
  qed
  have sub: "snake ` ?K1 \<subseteq> ?K1"
    unfolding K1 using step by (rule image_subsetI)
  have eq: "fst ` set (dict_items h1 d @ new2) = ?K1"
    unfolding keys2 using sub by (rule Un_absorb2)
  have "fst ` set new2 \<subseteq> fst ` set (dict_items h1 d @ new2)"
    by (simp add: image_Un)
  then have "fst ` set new2 \<subseteq> ?K1"
    unfolding eq .
  then have "new2 = []"
    using fv2 by (cases new2) auto
  then have hd2': "h2 ! d = h1 ! d"
    using hd2 hd1 items1 by simp
  have same: "h2 ! a = h1 ! a" if "a < length h1" for a
    using that fr2 hd2' by (cases "a = d") simp_all
  have tk: "take (length h1) h2 = h1"
    using same len2 by (intro nth_equalityI) simp_all
  have items2: "dict_items h2 d = dict_items h1 d"
    using d1 len2 hd2' by (simp add: dict_items_def heap_get_def)
  have fresh1: "\<forall>kv \<in> set new. fst kv \<notin> ?K"
    using fv1 by simp
  show ?thesis
    by (intro exI [of _ h1] exI [of _ h2] exI [of _ new] conjI run1 run2 tk items2 items1 fresh1)
qed

text \<open>
  C8. On a well-formed PropsDict, \<open>insert_snake_case_variants\<close> changes no object of
  the store other than the PropsDict itself, so the records of its members, their
  overload lists and the records in those lists are as before; the PropsDict keeps
  its entries and gains new ones; and each new entry is a new record that is the
  renamed copy of the record of a member: for a member with an overload list, a copy
  of the record with a new list of new copies of the overload records, each renamed to
  the new name; for any other member, a copy of the record renamed to the new name.
\<close>

theorem insert_snake_case_variants_copies:
  assumes pd: "props_dict h d"
  shows "\<exists>h1 new. insert_snake_case_variants snake d h = Inr h1
      \<and> (\<forall>a < length h. a \<noteq> d \<longrightarrow> h1 ! a = h ! a)
      \<and> dict_items h1 d = dict_items h d @ new
      \<and> (\<forall>kv' \<in> set new. variant_entry snake h h1 (dict_items h d) kv')"
proof -
  from insert_spec [OF pd, of snake]
  obtain h1 where "\<exists>new. insert_snake_case_variants snake d h = Inr h1
     \<and> length h < length h1
     \<and> (\<forall>a < length h. a \<noteq> d \<longrightarrow> h1 ! a = h ! a)
     \<and> h1 ! d = HDict (dict_items h d @ new)
     \<and> fst ` set (dict_items h d @ new)
          = fst ` set (dict_items h d) \<union> snake ` fst ` set (dict_items h d)
     \<and> (\<forall>kv' \<in> set new. fst kv' \<notin> fst ` set (dict_items h d)
            \<and> variant_entry snake h h1 (dict_items h d) kv')
     \<and> props_dict h1 d" ..
  then obtain new where c: "insert_snake_case_variants snake d h = Inr h1
     \<and> length h < length h1
     \<and> (\<forall>a < length h. a \<noteq> d \<longrightarrow> h1 ! a = h ! a)
     \<and> h1 ! d = HDict (dict_items h d @ new)
     \<and> fst ` set (dict_items h d @ new)
          = fst ` set (dict_items h d) \<union> snake ` fst ` set (dict_items h d)
     \<and> (\<forall>kv' \<in> set new. fst kv' \<notin> fst ` set (dict_items h d)
            \<and> variant_entry snake h h1 (dict_items h d) kv')
     \<and> props_dict h1 d" ..
  note run = c [THEN conjunct1]
    and len = c [THEN conjunct2, THEN conjunct1]
    and fr = c [THEN conjunct2, THEN conjunct2, THEN conjunct1]
    and hd = c [THEN conjunct2, THEN conjunct2, THEN conjunct2, THEN conjunct1]
    and keys = c [THEN conjunct2, THEN conjunct2, THEN conjunct2, THEN conjunct2, THEN conjunct1]
    and fv = c [THEN conjunct2, THEN conjunct2, THEN conjunct2, THEN conjunct2, THEN conjunct2, THEN conjunct1]
    and pd1 = c [THEN conjunct2, THEN conjunct2, THEN conjunct2, THEN conjunct2, THEN conjunct2, THEN conjunct2]
  have var: "\<forall>kv' \<in> set new. variant_entry snake h h1 (dict_items h d) kv'"
    using fv by simp
  have "d < length h"
    using pd by (simp add: props_dict_def is_dict_iff)
  then have "d < length h1"
    using len by simp
  then have items: "dict_items h1 d = dict_items h d @ new"
    using hd by (rule dict_items_eq)
  show ?thesis
    by (intro exI [of _ h1] exI [of _ new] conjI run fr items var)
qed

lemma to_lower_not_upper: "is_upper c \<Longrightarrow> \<not> is_upper (to_lower c)"
  by (simp add: is_upper_def to_lower_def)

lemma snake_case_idem: "snake_case (snake_case s) = snake_case s"
  by (induction s) (simp_all add: to_lower_not_upper, simp add: is_upper_def)

lemma example_props_dict: "props_dict example_heap 0"
  by (simp add: props_dict_def is_dict_def heap_get_def dict_items_def ok_value_def ok_item_def
      example_heap_def)

lemma snake_case_examples:
  "snake_case ''resizeEvent'' = ''resize_event''" "snake_case ''setValue'' = ''set_value''"
  by code_simp+

lemma example_run: "insert_snake_case_variants snake_case 0 example_heap = Inr example_heap_variants"
  by (simp add: insert_snake_case_variants_def PyDict_New_def heap_alloc_def dict_items_def
      heap_get_def build_new_entry_def PyDict_Copy_def PyDict_SetItem_def PyDict_GetItem_def
      PyList_New_def PyList_SetItem_def PyDict_Merge_keep_def snake_case_examples
      example_heap_def example_heap_variants_def del: snake_case.simps)

theorem insert_snake_case_variants_fixed_point_witness:
  "props_dict example_heap 0
   \<and> insert_snake_case_variants snake_case 0 example_heap = Inr example_heap_variants
   \<and> map_sum id (take (length example_heap_variants))
        (insert_snake_case_variants snake_case 0 example_heap_variants)
      = Inr example_heap_variants"
proof -
  obtain h1 h2 where "insert_snake_case_variants snake_case 0 example_heap = Inr h1"
      "insert_snake_case_variants snake_case 0 h1 = Inr h2" "take (length h1) h2 = h1"
    using insert_snake_case_variants_fixed_point [OF snake_case_idem example_props_dict]
    by (elim exE conjE)
  then show ?thesis
    using example_props_dict example_run by simp
qed

theorem insert_snake_case_variants_copies_witness:
  "props_dict example_heap 0
   \<and> insert_snake_case_variants snake_case 0 example_heap = Inr example_heap_variants
   \<and> tl (take (length example_heap) example_heap_variants) = tl example_heap
   \<and> list_all (variant_entry snake_case example_heap example_heap_variants
        [(''resizeEvent'', 1), (''setValue'', 2)])
        [(''resize_event'', 11), (''set_value'', 13)]"
proof -
  obtain h1 new where run: "insert_snake_case_variants snake_case 0 example_heap = Inr h1"
      and items: "dict_items h1 0 = dict_items example_heap 0 @ new"
      and var: "\<forall>kv' \<in> set new. variant_entry snake_case example_heap h1
        (dict_items example_heap 0) kv'"
    using insert_snake_case_variants_copies [OF example_props_dict, of snake_case]
    by (elim exE conjE)
  have h1: "h1 = example_heap_variants"
    using run example_run by simp
  have i0: "dict_items example_heap 0 = [(''resizeEvent'', 1), (''setValue'', 2)]"
    by (simp add: dict_items_def heap_get_def example_heap_def)
  have "new = [(''resize_event'', 11), (''set_value'', 13)]"
    using items unfolding h1 i0
    by (simp add: dict_items_def heap_get_def example_heap_variants_def)
  then have "list_all (variant_entry snake_case example_heap example_heap_variants
        [(''resizeEvent'', 1), (''setValue'', 2)])
        [(''resize_event'', 11), (''set_value'', 13)]"
    using var unfolding h1 i0 by simp
  moreover have "tl (take (length example_heap) example_heap_variants) = tl example_heap"
    by (simp add: example_heap_def example_heap_variants_def)
  ultimately show ?thesis
    using example_props_dict example_run by simp
qed


end
